theory Spec2Isabelle
  imports Main "HOL-Library.Multiset" "HOL-Library.AList"
    "HOL-Library.List_Lexorder" "HOL-Library.Product_Lexorder"
begin

section \<open>The Import Order strategy of the tab organizer\<close>

text \<open>
  A shallow embedding of \<^verbatim>\<open>ImportOrderStrategy\<close> (importOrderStrategy.ts).
  JavaScript strings are modelled as \<^typ>\<open>string\<close>; the code only compares, splits and
  concatenates them. A \<^verbatim>\<open>Set<string>\<close> is a duplicate-free list in insertion order, a
  \<^verbatim>\<open>Map\<close> and the \<^verbatim>\<open>importGraph\<close> object are association lists in insertion order
  (\<^const>\<open>AList.update\<close> replaces the value of a present key in place and appends a new
  key, as \<^verbatim>\<open>Map.prototype.set\<close> does). The property names of \<^verbatim>\<open>importGraph\<close> are
  absolute file paths, so none is an array index (which an object would enumerate
  first) or the name of a property of \<^verbatim>\<open>Object.prototype\<close>. Counts and depths are small
  non-negative integers, modelled as \<^typ>\<open>nat\<close>; the comparator subtracts them as
  \<^typ>\<open>int\<close>. A method that changes the instance takes the state of the instance and
  returns the new one; a caught exception is a branch of the model. The functions of
  Node, of the editor and of the JavaScript library are parameters, collected in a
  record.
\<close>

subsection \<open>Host environment\<close>

text \<open>Values produced by \<^verbatim>\<open>JSON.parse\<close>. Of a number only its truthiness is observed.\<close>

datatype json =
    JNull
  | JBool bool
  | JNum int
  | JStr string
  | JArr "json list"
  | JObj "(string \<times> json) list"

text \<open>
  What the strategy asks of Node, of the VS Code API and of the JavaScript library:
  \<^item> \<open>fileExists\<close>: \<^verbatim>\<open>fs.existsSync\<close>;
  \<^item> \<open>readFileSync\<close>: \<^verbatim>\<open>fs.readFileSync(p, "utf8")\<close>, \<open>None\<close> when it throws;
  \<^item> \<open>openDocumentText\<close>: the text of the entry of \<^verbatim>\<open>workspace.textDocuments\<close> whose
    \<^verbatim>\<open>uri.fsPath\<close> is the path, \<open>None\<close> when there is none;
  \<^item> \<open>workspaceRoot\<close>: \<^verbatim>\<open>workspaceFolders?.[0]?.uri.fsPath\<close>;
  \<^item> \<open>aliasConfigFiles\<close>: the setting \<^verbatim>\<open>tabOrganizer.aliasConfigFiles\<close> (\<^verbatim>\<open>|| []\<close>);
  \<^item> \<open>pathSep\<close>, \<open>pathDirname\<close>, \<open>pathResolve\<close>, \<open>pathJoin\<close>: Node's \<^verbatim>\<open>path\<close> module;
  \<^item> \<open>importMatches\<close>: the first capture group of every match of the three
    \<^verbatim>\<open>importPatterns\<close> over a text, pattern by pattern, in match order, as the
    regular expression engine of the host finds them;
  \<^item> \<open>stripComments\<close>: the two \<^verbatim>\<open>replace\<close> calls that delete block and line comments,
    again by the regular expression engine;
  \<^item> \<open>jsonParse\<close>: \<^verbatim>\<open>JSON.parse\<close>, \<open>None\<close> when it throws; the entries of an object are
    its own enumerable properties in enumeration order;
  \<^item> \<open>localeCompare\<close>: \<^verbatim>\<open>String.prototype.localeCompare\<close> in the host's default locale.
\<close>

record host =
  fileExists :: "string \<Rightarrow> bool"
  readFileSync :: "string \<Rightarrow> string option"
  openDocumentText :: "string \<Rightarrow> string option"
  workspaceRoot :: "string option"
  aliasConfigFiles :: "string list"
  pathSep :: char
  pathDirname :: "string \<Rightarrow> string"
  pathResolve :: "string \<Rightarrow> string \<Rightarrow> string"
  pathJoin :: "string \<Rightarrow> string \<Rightarrow> string"
  importMatches :: "string \<Rightarrow> string list"
  stripComments :: "string \<Rightarrow> string"
  jsonParse :: "string \<Rightarrow> json option"
  localeCompare :: "string \<Rightarrow> string \<Rightarrow> int"

subsection \<open>Tabs and the state of a strategy instance\<close>

text \<open>A tab, with the value of \<^verbatim>\<open>tab.input?.uri?.fsPath\<close> (\<open>None\<close> for \<^verbatim>\<open>undefined\<close>).\<close>

record tab =
  tabLabel :: string
  inputFsPath :: "string option"

definition getTabPath :: "tab \<Rightarrow> string option" where
  "getTabPath t = inputFsPath t"

text \<open>JavaScript truthiness of a \<^verbatim>\<open>string | undefined\<close>: the empty string is falsy.\<close>

definition truthy :: "string option \<Rightarrow> string option" where
  "truthy p = (case p of None \<Rightarrow> None | Some s \<Rightarrow> if s = [] then None else Some s)"

record strategy =
  importGraph :: "(string \<times> string list) list"
  importCache :: "(string \<times> string list) list"
  pathAliases :: "(string \<times> string) list option"
  baseUrl :: "string option"

text \<open>\<^verbatim>\<open>Set.prototype.add\<close> on a set kept in insertion order.\<close>

definition setAdd :: "'a \<Rightarrow> 'a list \<Rightarrow> 'a list" where
  "setAdd x xs = (if x \<in> set xs then xs else xs @ [x])"

text \<open>\<^verbatim>\<open>m.get(k) || 0\<close> on a map of numbers.\<close>

definition getOr0 :: "(string \<times> nat) list \<Rightarrow> string \<Rightarrow> nat" where
  "getOr0 m k = (case map_of m k of None \<Rightarrow> 0 | Some n \<Rightarrow> n)"

subsection \<open>Extension and index probing\<close>

definition resolveWithExtensions :: "host \<Rightarrow> string \<Rightarrow> string option" where
  "resolveWithExtensions h resolved =
     (case List.find (fileExists h)
             (map (\<lambda>ext. resolved @ ext) [''.ts'', ''.tsx'', ''.js'', ''.jsx'', '''']) of
        Some testPath \<Rightarrow> Some testPath
      | None \<Rightarrow>
          List.find (fileExists h)
            (map (\<lambda>ext. pathJoin h resolved (''index'' @ ext))
               [''.ts'', ''.tsx'', ''.js'', ''.jsx'']))"

subsection \<open>Matching a resolved path against the open tabs\<close>

text \<open>\<^verbatim>\<open>s.split(path.sep)\<close>; the separator is a single character.\<close>

fun splitOn :: "char \<Rightarrow> string \<Rightarrow> string list" where
  "splitOn sep [] = [[]]"
| "splitOn sep (c # cs) =
     (if c = sep then [] # splitOn sep cs
      else (case splitOn sep cs of
              [] \<Rightarrow> [[c]]
            | w # ws \<Rightarrow> (c # w) # ws))"

text \<open>
  The inner loop of \<^verbatim>\<open>findMatchingTabPath\<close>: \<open>i\<close> runs from 1 to \<open>minLength\<close> and the
  loop breaks at the first pair of segments that differ.
\<close>

function matchLoop :: "string list \<Rightarrow> string list \<Rightarrow> nat \<Rightarrow> nat \<Rightarrow> nat \<Rightarrow> nat" where
  "matchLoop resolvedSegments tabSegments minLength i matchLength =
     (if i \<le> minLength then
        (if resolvedSegments ! (length resolvedSegments - i) = tabSegments ! (length tabSegments - i)
         then matchLoop resolvedSegments tabSegments minLength (i + 1) (matchLength + 1)
         else matchLength)
      else matchLength)"
  by pat_completeness auto
termination
  by (relation "measure (\<lambda>(rs, ts, minLength, i, m). minLength + 1 - i)") auto

declare matchLoop.simps [simp del]

definition suffixMatchLength :: "string list \<Rightarrow> string list \<Rightarrow> nat" where
  "suffixMatchLength resolvedSegments tabSegments =
     matchLoop resolvedSegments tabSegments
       (min (length resolvedSegments) (length tabSegments)) 1 0"

definition considerTab ::
  "char \<Rightarrow> string list \<Rightarrow> string \<Rightarrow> string option \<times> nat \<Rightarrow> string option \<times> nat" where
  "considerTab sep resolvedSegments tabPath best =
     (let matchLength = suffixMatchLength resolvedSegments (splitOn sep tabPath) in
      if matchLength \<ge> 2 \<and> matchLength > snd best then (Some tabPath, matchLength) else best)"

definition findMatchingTabPath :: "char \<Rightarrow> string \<Rightarrow> string list \<Rightarrow> string option" where
  "findMatchingTabPath sep resolvedPath tabPaths =
     (if resolvedPath \<in> set tabPaths then Some resolvedPath
      else fst (fold (considerTab sep (splitOn sep resolvedPath)) tabPaths (None, 0)))"


subsection \<open>Loading the alias table\<close>

text \<open>Truthiness of a parsed JSON value.\<close>

definition jsTruthy :: "json \<Rightarrow> bool" where
  "jsTruthy v =
     (case v of
        JNull \<Rightarrow> False
      | JBool b \<Rightarrow> b
      | JNum n \<Rightarrow> n \<noteq> 0
      | JStr s \<Rightarrow> s \<noteq> []
      | JArr xs \<Rightarrow> True
      | JObj kvs \<Rightarrow> True)"

text \<open>
  Reading one of the properties \<^verbatim>\<open>compilerOptions\<close>, \<^verbatim>\<open>paths\<close>, \<^verbatim>\<open>baseUrl\<close> of a
  value other than \<^verbatim>\<open>null\<close>: only an object can have it, \<open>None\<close> is \<^verbatim>\<open>undefined\<close>.
\<close>

definition jsProp :: "json \<Rightarrow> string \<Rightarrow> json option" where
  "jsProp v k = (case v of JObj kvs \<Rightarrow> map_of kvs k | _ \<Rightarrow> None)"

text \<open>Decimal numerals, the property names of array elements and string characters.\<close>

function decimal :: "nat \<Rightarrow> string" where
  "decimal n =
     (if n < 10 then [''0123456789'' ! n]
      else decimal (n div 10) @ [''0123456789'' ! (n mod 10)])"
  by pat_completeness auto
termination
  by (relation "measure id") auto

declare decimal.simps [simp del]

text \<open>\<^verbatim>\<open>Object.entries\<close> of a truthy parsed value.\<close>

definition objectEntries :: "json \<Rightarrow> (string \<times> json) list" where
  "objectEntries v =
     (case v of
        JObj kvs \<Rightarrow> kvs
      | JArr xs \<Rightarrow> zip (map decimal [0..<length xs]) xs
      | JStr s \<Rightarrow> zip (map decimal [0..<length s]) (map (\<lambda>c. JStr [c]) s)
      | _ \<Rightarrow> [])"

text \<open>\<^verbatim>\<open>s.replace(/\/\*$/, "")\<close>: one trailing \<^verbatim>\<open>/*\<close> is removed.\<close>

definition stripWildcard :: "string \<Rightarrow> string" where
  "stripWildcard s =
     (if 2 \<le> length s \<and> drop (length s - 2) s = ''/*'' then take (length s - 2) s else s)"

text \<open>
  The loop over \<^verbatim>\<open>Object.entries(paths)\<close>. An entry whose value is a non-empty array
  sets an alias from its first element; when that element is not a string, calling
  \<^verbatim>\<open>replace\<close> on it throws, which the second component records. The aliases set
  before the throw stay in the table.
\<close>

fun setAliases ::
  "(string \<times> json) list \<Rightarrow> (string \<times> string) list \<Rightarrow> (string \<times> string) list \<times> bool" where
  "setAliases [] aliases = (aliases, False)"
| "setAliases ((alias, targets) # rest) aliases =
     (case targets of
        JArr (t0 # ts) \<Rightarrow>
          (case t0 of
             JStr target \<Rightarrow>
               setAliases rest (AList.update (stripWildcard alias) (stripWildcard target) aliases)
           | _ \<Rightarrow> (aliases, True))
      | _ \<Rightarrow> setAliases rest aliases)"

text \<open>
  \<^verbatim>\<open>compilerOptions.baseUrl ? path.resolve(workspaceRoot, compilerOptions.baseUrl) : workspaceRoot\<close>;
  \<^verbatim>\<open>path.resolve\<close> throws on an argument that is not a string (\<open>None\<close>).
\<close>

definition newBaseUrl :: "host \<Rightarrow> string \<Rightarrow> json option \<Rightarrow> string option" where
  "newBaseUrl h root v =
     (case v of
        None \<Rightarrow> Some root
      | Some u \<Rightarrow>
          if \<not> jsTruthy u then Some root
          else (case u of JStr s \<Rightarrow> Some (pathResolve h root s) | _ \<Rightarrow> None))"

datatype loopExit = Continue | Break

text \<open>
  The body of the loop over the configuration files, on the pair of
  \<^verbatim>\<open>this.pathAliases\<close> and \<^verbatim>\<open>this.baseUrl\<close>. Every exception raised inside the
  \<^verbatim>\<open>try\<close> block is caught and the loop goes on with the next file, keeping whatever
  was assigned before the throw.
\<close>

definition loadConfigFile ::
  "host \<Rightarrow> string \<Rightarrow> string \<Rightarrow> (string \<times> string) list \<times> string option \<Rightarrow>
     ((string \<times> string) list \<times> string option) \<times> loopExit" where
  "loadConfigFile h root configFile tbl =
     (let configPath = pathJoin h root configFile in
      if \<not> fileExists h configPath then (tbl, Continue)
      else
        (case readFileSync h configPath of
           None \<Rightarrow> (tbl, Continue)
         | Some content \<Rightarrow>
             (case jsonParse h (stripComments h content) of
                None \<Rightarrow> (tbl, Continue)
              | Some config \<Rightarrow>
                  if config = JNull then (tbl, Continue)
                  else
                    (let compilerOptions =
                           (case jsProp config ''compilerOptions'' of
                              None \<Rightarrow> JObj []
                            | Some v \<Rightarrow> if jsTruthy v then v else JObj [])
                     in
                       (case jsProp compilerOptions ''paths'' of
                          None \<Rightarrow> (tbl, Continue)
                        | Some paths \<Rightarrow>
                            if \<not> jsTruthy paths \<or> objectEntries paths = [] then (tbl, Continue)
                            else
                              (case newBaseUrl h root (jsProp compilerOptions ''baseUrl'') of
                                 None \<Rightarrow> (tbl, Continue)
                               | Some b \<Rightarrow>
                                   (case setAliases (objectEntries paths) (fst tbl) of
                                      (aliases, threw) \<Rightarrow>
                                        ((aliases, Some b),
                                         if threw then Continue else Break))))))))"

fun scanConfigFiles ::
  "host \<Rightarrow> string \<Rightarrow> string list \<Rightarrow> (string \<times> string) list \<times> string option \<Rightarrow>
     (string \<times> string) list \<times> string option" where
  "scanConfigFiles h root [] tbl = tbl"
| "scanConfigFiles h root (configFile # rest) tbl =
     (case loadConfigFile h root configFile tbl of
        (tbl', Break) \<Rightarrow> tbl'
      | (tbl', Continue) \<Rightarrow> scanConfigFiles h root rest tbl')"

definition loadPathAliases :: "host \<Rightarrow> strategy \<Rightarrow> strategy" where
  "loadPathAliases h st =
     (case pathAliases st of
        Some aliases \<Rightarrow> st
      | None \<Rightarrow>
          (case truthy (workspaceRoot h) of
             None \<Rightarrow> st\<lparr>pathAliases := Some []\<rparr>
           | Some root \<Rightarrow>
               (case scanConfigFiles h root (aliasConfigFiles h) ([], baseUrl st) of
                  (aliases, b) \<Rightarrow> st\<lparr>pathAliases := Some aliases, baseUrl := b\<rparr>)))"

subsection \<open>Resolving a reference\<close>

definition startsWith :: "string \<Rightarrow> string \<Rightarrow> bool" where
  "startsWith s p \<longleftrightarrow> take (length p) s = p"

definition aliasApplies :: "string \<Rightarrow> string \<times> string \<Rightarrow> bool" where
  "aliasApplies importPath entry \<longleftrightarrow>
     importPath = fst entry \<or> startsWith importPath (fst entry @ ''/'')"

definition resolveImportPath ::
  "host \<Rightarrow> string \<Rightarrow> string \<Rightarrow> strategy \<Rightarrow> string option \<times> strategy" where
  "resolveImportPath h fromFile importPath st =
     (if startsWith importPath ''.'' \<or> startsWith importPath ''/'' then
        (resolveWithExtensions h (pathResolve h (pathDirname h fromFile) importPath), st)
      else
        (let st' = loadPathAliases h st;
             result =
               (case (pathAliases st', truthy (baseUrl st')) of
                  (Some aliases, Some base) \<Rightarrow>
                    (case List.find (aliasApplies importPath) aliases of
                       Some (alias, target) \<Rightarrow>
                         resolveWithExtensions h
                           (pathJoin h base (target @ drop (length alias) importPath))
                     | None \<Rightarrow> None)
                | _ \<Rightarrow> None)
         in (result, st')))"

subsection \<open>Extraction with its cache, and the import graph\<close>

definition addImport ::
  "host \<Rightarrow> string \<Rightarrow> string \<Rightarrow> string list \<times> strategy \<Rightarrow> string list \<times> strategy" where
  "addImport h filePath importPath acc =
     (case resolveImportPath h filePath importPath (snd acc) of
        (resolvedPath, st') \<Rightarrow>
          (case truthy resolvedPath of
             None \<Rightarrow> (fst acc, st')
           | Some r \<Rightarrow> (setAdd r (fst acc), st')))"

definition extractImports :: "host \<Rightarrow> string \<Rightarrow> strategy \<Rightarrow> string list \<times> strategy" where
  "extractImports h filePath st =
     (case map_of (importCache st) filePath of
        Some cached \<Rightarrow> (cached, st)
      | None \<Rightarrow>
          (case (case openDocumentText h filePath of
                   Some t \<Rightarrow> Some t
                 | None \<Rightarrow> readFileSync h filePath) of
             None \<Rightarrow> ([], st\<lparr>importCache := AList.update filePath [] (importCache st)\<rparr>)
           | Some text \<Rightarrow>
               if text = [] then
                 ([], st\<lparr>importCache := AList.update filePath [] (importCache st)\<rparr>)
               else
                 (case fold (addImport h filePath) (importMatches h text) ([], st) of
                    (imports, st') \<Rightarrow>
                      (imports,
                       st'\<lparr>importCache := AList.update filePath imports (importCache st')\<rparr>))))"

definition addToGraph :: "host \<Rightarrow> tab \<Rightarrow> strategy \<Rightarrow> strategy" where
  "addToGraph h t st =
     (case truthy (getTabPath t) of
        None \<Rightarrow> st
      | Some filePath \<Rightarrow>
          (case extractImports h filePath st of
             (imports, st') \<Rightarrow>
               st'\<lparr>importGraph := AList.update filePath imports (importGraph st')\<rparr>))"

definition buildImportGraph :: "host \<Rightarrow> tab list \<Rightarrow> strategy \<Rightarrow> strategy" where
  "buildImportGraph h tabs st = fold (addToGraph h) tabs (st\<lparr>importGraph := []\<rparr>)"

definition clearCache :: "strategy \<Rightarrow> strategy" where
  "clearCache st = st\<lparr>importCache := [], importGraph := [], pathAliases := None, baseUrl := None\<rparr>"

subsection \<open>Depth scores\<close>

text \<open>The set of tab paths: every path that is not \<^verbatim>\<open>undefined\<close>, in order of first occurrence.\<close>

definition tabPathSet :: "tab list \<Rightarrow> string list" where
  "tabPathSet tabs = fold setAdd (List.map_filter getTabPath tabs) []"

text \<open>One import of one file in the counting loop, on \<^verbatim>\<open>resolvedToTabPath\<close> and \<^verbatim>\<open>incomingCount\<close>.\<close>

definition countImport ::
  "char \<Rightarrow> string list \<Rightarrow> string \<Rightarrow>
     (string \<times> string) list \<times> (string \<times> nat) list \<Rightarrow>
     (string \<times> string) list \<times> (string \<times> nat) list" where
  "countImport sep tabPaths imported acc =
     (case truthy (findMatchingTabPath sep imported tabPaths) of
        None \<Rightarrow> acc
      | Some matchingTab \<Rightarrow>
          (AList.update imported matchingTab (fst acc),
           AList.update matchingTab (getOr0 (snd acc) matchingTab + 1) (snd acc)))"

definition countIncoming ::
  "char \<Rightarrow> string list \<Rightarrow> (string \<times> string list) list \<Rightarrow>
     (string \<times> string) list \<times> (string \<times> nat) list" where
  "countIncoming sep tabPaths graph =
     fold (\<lambda>entry acc. fold (countImport sep tabPaths) (snd entry) acc) graph
       ([], fold (\<lambda>filePath m. AList.update filePath 0 m) tabPaths [])"

text \<open>The state of the traversal.\<close>

record kahn =
  queue :: "string list"
  incomingCount :: "(string \<times> nat) list"
  depths :: "(string \<times> nat) list"

definition seedEntry :: "string \<times> nat \<Rightarrow> kahn \<Rightarrow> kahn" where
  "seedEntry entry st =
     (if snd entry = 0
      then st\<lparr>queue := queue st @ [fst entry], depths := AList.update (fst entry) 0 (depths st)\<rparr>
      else st)"

definition seedQueue :: "(string \<times> nat) list \<Rightarrow> kahn" where
  "seedQueue counts = fold seedEntry counts \<lparr>queue = [], incomingCount = counts, depths = []\<rparr>"

text \<open>One import of the dequeued file; \<open>newCount\<close> is \<^verbatim>\<open>(incomingCount.get(t) || 1) - 1\<close>.\<close>

definition relaxImport :: "(string \<times> string) list \<Rightarrow> nat \<Rightarrow> string \<Rightarrow> kahn \<Rightarrow> kahn" where
  "relaxImport resolvedToTabPath currentDepth imported st =
     (case truthy (map_of resolvedToTabPath imported) of
        None \<Rightarrow> st
      | Some matchingTab \<Rightarrow>
          (let newCount =
                 (case map_of (incomingCount st) matchingTab of
                    None \<Rightarrow> 1
                  | Some c \<Rightarrow> if c = 0 then 1 else c) - 1;
               existingDepth = getOr0 (depths st) matchingTab
           in st\<lparr>incomingCount := AList.update matchingTab newCount (incomingCount st),
                 depths :=
                   AList.update matchingTab (max existingDepth (currentDepth + 1)) (depths st),
                 queue := (if newCount = 0 then queue st @ [matchingTab] else queue st)\<rparr>))"

text \<open>
  One iteration of the \<^verbatim>\<open>while\<close> loop: \<^verbatim>\<open>queue.shift()\<close>, then the loop over the imports
  of the dequeued file (\<^verbatim>\<open>this.importGraph[current] || new Set()\<close>; a tab path is a file
  path, never the name of a property of \<^verbatim>\<open>Object.prototype\<close>).
\<close>

definition processNext ::
  "(string \<times> string list) list \<Rightarrow> (string \<times> string) list \<Rightarrow> kahn \<Rightarrow> kahn" where
  "processNext graph resolvedToTabPath st =
     (case queue st of
        [] \<Rightarrow> st
      | current # rest \<Rightarrow>
          fold (relaxImport resolvedToTabPath (getOr0 (depths st) current))
            (case map_of graph current of None \<Rightarrow> [] | Some imports \<Rightarrow> imports)
            (st\<lparr>queue := rest\<rparr>))"

text \<open>The \<^verbatim>\<open>while (queue.length > 0)\<close> loop; \<open>None\<close> when it does not end.\<close>

partial_function (option) drainQueue ::
  "(string \<times> string list) list \<Rightarrow> (string \<times> string) list \<Rightarrow> kahn \<Rightarrow> kahn option" where
  "drainQueue graph resolvedToTabPath st =
     (if queue st = [] then Some st
      else drainQueue graph resolvedToTabPath (processNext graph resolvedToTabPath st))"

declare drainQueue.simps [code]

text \<open>\<^verbatim>\<open>Math.max(...Array.from(depths.values()), 0)\<close>.\<close>

definition maxDepthOf :: "(string \<times> nat) list \<Rightarrow> nat" where
  "maxDepthOf ds = fold max (map snd ds) 0"

definition assignRemaining :: "string list \<Rightarrow> (string \<times> nat) list \<Rightarrow> (string \<times> nat) list" where
  "assignRemaining tabPaths ds =
     (let maxDepth = maxDepthOf ds in
      fold (\<lambda>filePath d.
              if map_of d filePath = None then AList.update filePath (maxDepth + 1) d else d)
        tabPaths ds)"

text \<open>The state in which the traversal starts, and the state in which the queue is empty.\<close>

definition kahnStart :: "char \<Rightarrow> string list \<Rightarrow> (string \<times> string list) list \<Rightarrow> kahn" where
  "kahnStart sep tabPaths graph = seedQueue (snd (countIncoming sep tabPaths graph))"

definition kahnDrained ::
  "char \<Rightarrow> string list \<Rightarrow> (string \<times> string list) list \<Rightarrow> kahn option" where
  "kahnDrained sep tabPaths graph =
     drainQueue graph (fst (countIncoming sep tabPaths graph)) (kahnStart sep tabPaths graph)"

definition calculateImportScores ::
  "host \<Rightarrow> (string \<times> string list) list \<Rightarrow> tab list \<Rightarrow> (string \<times> nat) list option" where
  "calculateImportScores h graph tabs =
     (let tabPaths = tabPathSet tabs in
      case kahnDrained (pathSep h) tabPaths graph of
        None \<Rightarrow> None
      | Some st \<Rightarrow> Some (assignRemaining tabPaths (depths st)))"

subsection \<open>The sort operation\<close>

definition compareTabs :: "host \<Rightarrow> (string \<times> nat) list \<Rightarrow> tab \<Rightarrow> tab \<Rightarrow> int" where
  "compareTabs h scores a b =
     (case (truthy (getTabPath a), truthy (getTabPath b)) of
        (None, None) \<Rightarrow> 0
      | (None, Some pathB) \<Rightarrow> 1
      | (Some pathA, None) \<Rightarrow> - 1
      | (Some pathA, Some pathB) \<Rightarrow>
          (let depthA = getOr0 scores pathA; depthB = getOr0 scores pathB in
           if depthA \<noteq> depthB then int depthA - int depthB
           else localeCompare h pathA pathB))"

text \<open>
  \<^verbatim>\<open>Array.prototype.sort\<close> is stable: of two elements, one is moved before the other
  only when the comparator puts it strictly first. With a consistent comparator the
  result is the stable sorted arrangement, which insertion from the right computes.
\<close>

fun insertBy :: "('a \<Rightarrow> 'a \<Rightarrow> int) \<Rightarrow> 'a \<Rightarrow> 'a list \<Rightarrow> 'a list" where
  "insertBy cmp x [] = [x]"
| "insertBy cmp x (y # ys) = (if cmp x y \<le> 0 then x # y # ys else y # insertBy cmp x ys)"

definition sortBy :: "('a \<Rightarrow> 'a \<Rightarrow> int) \<Rightarrow> 'a list \<Rightarrow> 'a list" where
  "sortBy cmp xs = foldr (insertBy cmp) xs []"

text \<open>\<^verbatim>\<open>sort\<close>: the sorted copy of the tabs and the state the call leaves behind.\<close>

definition sortTabs :: "host \<Rightarrow> strategy \<Rightarrow> tab list \<Rightarrow> (tab list \<times> strategy) option" where
  "sortTabs h st tabs =
     (let st' = buildImportGraph h tabs st in
      case calculateImportScores h (importGraph st') tabs of
        None \<Rightarrow> None
      | Some scores \<Rightarrow> Some (sortBy (compareTabs h scores) tabs, st'))"

section \<open>Notions used to state the properties\<close>

subsection \<open>Trailing segments and probe order\<close>

text \<open>The number of equal leading elements of two lists.\<close>

fun commonPrefixLength :: "'a list \<Rightarrow> 'a list \<Rightarrow> nat" where
  "commonPrefixLength (x # xs) (y # ys) = (if x = y then Suc (commonPrefixLength xs ys) else 0)"
| "commonPrefixLength xs ys = 0"

text \<open>
  The number of consecutive equal trailing path segments of two paths: the file names,
  then the containing directories, up to the first pair that differs.
\<close>

definition sharedTrailingSegments :: "char \<Rightarrow> string \<Rightarrow> string \<Rightarrow> nat" where
  "sharedTrailingSegments sep a b =
     commonPrefixLength (rev (splitOn sep a)) (rev (splitOn sep b))"

text \<open>
  \<open>firstBest L xs t\<close>: \<open>t\<close> is the first element of \<open>xs\<close> on which \<open>L\<close> is
  largest, and \<open>L t\<close> is at least two.
\<close>

definition firstBest :: "(string \<Rightarrow> nat) \<Rightarrow> string list \<Rightarrow> string \<Rightarrow> bool" where
  "firstBest L xs t \<longleftrightarrow>
     (\<exists>i<length xs. xs ! i = t \<and> 2 \<le> L t \<and> (\<forall>j<length xs. L (xs ! j) \<le> L t) \<and>
        (\<forall>j<i. L (xs ! j) < L t))"

text \<open>The paths probed for a candidate, in the order in which the code probes them.\<close>

definition probeOrder :: "host \<Rightarrow> string \<Rightarrow> string list" where
  "probeOrder h resolved =
     [resolved @ ''.ts'', resolved @ ''.tsx'', resolved @ ''.js'', resolved @ ''.jsx'', resolved,
      pathJoin h resolved ''index.ts'', pathJoin h resolved ''index.tsx'',
      pathJoin h resolved ''index.js'', pathJoin h resolved ''index.jsx'']"

subsection \<open>Matched edges\<close>

text \<open>The open tab that a resolved import is matched to, if any.\<close>

definition matchOf :: "char \<Rightarrow> string list \<Rightarrow> string \<Rightarrow> string option" where
  "matchOf sep tabPaths imported = truthy (findMatchingTabPath sep imported tabPaths)"

text \<open>The same, read from the \<^verbatim>\<open>resolvedToTabPath\<close> map as the traversal does.\<close>

definition targetOf :: "(string \<times> string) list \<Rightarrow> string \<Rightarrow> string option" where
  "targetOf resolvedToTabPath imported = truthy (map_of resolvedToTabPath imported)"

definition importsOf :: "(string \<times> string list) list \<Rightarrow> string \<Rightarrow> string list" where
  "importsOf graph f = (case map_of graph f of None \<Rightarrow> [] | Some imports \<Rightarrow> imports)"

definition importedPaths :: "(string \<times> string list) list \<Rightarrow> string set" where
  "importedPaths graph = (\<Union>entry\<in>set graph. set (snd entry))"

text \<open>
  The matched incoming edges of an open file \<open>t\<close>: the pairs of a file of the graph and
  one of its resolved imports that is matched to \<open>t\<close>. The file itself may be the
  importer.
\<close>

definition matchedIncoming ::
  "char \<Rightarrow> string list \<Rightarrow> (string \<times> string list) list \<Rightarrow> string \<Rightarrow> (string \<times> string) list" where
  "matchedIncoming sep tabPaths graph t =
     filter (\<lambda>edge. matchOf sep tabPaths (snd edge) = Some t)
       (concat (map (\<lambda>entry. map (Pair (fst entry)) (snd entry)) graph))"

definition edgesInto :: "(string \<Rightarrow> string option) \<Rightarrow> string list \<Rightarrow> string \<Rightarrow> nat" where
  "edgesInto tgt imports t = length (filter (\<lambda>i. tgt i = Some t) imports)"

definition inDegree ::
  "char \<Rightarrow> string list \<Rightarrow> (string \<times> string list) list \<Rightarrow> string \<Rightarrow> nat" where
  "inDegree sep tabPaths graph t =
     sum_list (map (\<lambda>entry. edgesInto (matchOf sep tabPaths) (snd entry) t) graph)"

subsection \<open>The invariant of the traversal\<close>

text \<open>
  A file is done when it has been dequeued: it is an open file with no remaining
  incoming count that is not waiting in the queue.
\<close>

definition isDone :: "string list \<Rightarrow> kahn \<Rightarrow> string \<Rightarrow> bool" where
  "isDone T st f \<longleftrightarrow> f \<in> set T \<and> getOr0 (incomingCount st) f = 0 \<and> f \<notin> set (queue st)"

text \<open>The matched edges into \<open>t\<close> whose importer is not done.\<close>

definition pendingInto ::
  "(string \<Rightarrow> string option) \<Rightarrow> (string \<times> string list) list \<Rightarrow> (string \<Rightarrow> bool) \<Rightarrow>
     string \<Rightarrow> nat" where
  "pendingInto tgt graph finished t =
     sum_list
       (map (\<lambda>entry. if finished (fst entry) then 0 else edgesInto tgt (snd entry) t) graph)"

definition kahnInv ::
  "(string \<Rightarrow> string option) \<Rightarrow> (string \<times> string list) list \<Rightarrow> string list \<Rightarrow> kahn \<Rightarrow> bool" where
  "kahnInv tgt graph T st \<longleftrightarrow>
     distinct (queue st) \<and> set (queue st) \<subseteq> set T \<and>
     (\<forall>t\<in>set (queue st). getOr0 (incomingCount st) t = 0) \<and>
     (\<forall>t. getOr0 (incomingCount st) t = pendingInto tgt graph (isDone T st) t)"

text \<open>The invariant of the loop over the imports of the dequeued file \<open>f\<close>.\<close>

definition innerInv ::
  "(string \<Rightarrow> string option) \<Rightarrow> (string \<times> string list) list \<Rightarrow> string list \<Rightarrow> kahn \<Rightarrow>
     string \<Rightarrow> string list \<Rightarrow> kahn \<Rightarrow> bool" where
  "innerInv tgt graph T st0 f rem st \<longleftrightarrow>
     distinct (queue st) \<and> set (queue st) \<subseteq> set T \<and> f \<notin> set (queue st) \<and>
     (\<forall>t\<in>set (queue st). getOr0 (incomingCount st) t = 0) \<and>
     getOr0 (incomingCount st) f = 0 \<and>
     (\<forall>x. isDone T st x = (isDone T st0 x \<or> x = f)) \<and>
     (\<forall>t. getOr0 (incomingCount st) t =
          pendingInto tgt graph (isDone T st) t + edgesInto tgt rem t)"

text \<open>The number of open files that are not done; it decreases with every dequeued file.\<close>

definition undone :: "string list \<Rightarrow> kahn \<Rightarrow> nat" where
  "undone T st = length (filter (\<lambda>x. \<not> isDone T st x) T)"

definition keysOf :: "('k \<times> 'v) list \<Rightarrow> 'k set" where
  "keysOf m = set (map fst m)"

text \<open>The keys of a count map whose count is zero, in the order of the map.\<close>

definition zeroKeys :: "(string \<times> nat) list \<Rightarrow> string list" where
  "zeroKeys counts = map fst (filter (\<lambda>entry. snd entry = 0) counts)"

text \<open>
  The invariant on depths: an open file without matched incoming edges has depth 0, and
  no file with a matched incoming edge has.
\<close>

definition depthInv ::
  "char \<Rightarrow> string list \<Rightarrow> (string \<times> string list) list \<Rightarrow> kahn \<Rightarrow> bool" where
  "depthInv sep T g st \<longleftrightarrow>
     (\<forall>t. (inDegree sep T g t = 0 \<and> t \<in> set T \<longrightarrow> map_of (depths st) t = Some 0) \<and>
          (0 < inDegree sep T g t \<longrightarrow> map_of (depths st) t \<noteq> Some 0))"

text \<open>A file that is not in the queue and has no depth yet.\<close>

definition untouched :: "string \<Rightarrow> kahn \<Rightarrow> bool" where
  "untouched p st \<longleftrightarrow> p \<notin> set (queue st) \<and> map_of (depths st) p = None"

subsection \<open>The course of the traversal\<close>

text \<open>The state after \<open>n\<close> iterations of the \<^verbatim>\<open>while\<close> loop.\<close>

definition stateAfter ::
  "char \<Rightarrow> string list \<Rightarrow> (string \<times> string list) list \<Rightarrow> nat \<Rightarrow> kahn" where
  "stateAfter sep tabPaths graph n =
     (processNext graph (fst (countIncoming sep tabPaths graph)) ^^ n) (kahnStart sep tabPaths graph)"

text \<open>Iteration \<open>n\<close> of the loop dequeues \<open>f\<close>: \<open>f\<close> is at the head of the queue then.\<close>

definition dequeuedIn ::
  "char \<Rightarrow> string list \<Rightarrow> (string \<times> string list) list \<Rightarrow> nat \<Rightarrow> string \<Rightarrow> bool" where
  "dequeuedIn sep tabPaths graph n f \<longleftrightarrow>
     (case queue (stateAfter sep tabPaths graph n) of
        [] \<Rightarrow> False
      | current # rest \<Rightarrow> current = f)"

text \<open>The file \<open>f\<close> of the graph has a resolved import that is matched to \<open>t\<close>.\<close>

definition fedBy ::
  "char \<Rightarrow> string list \<Rightarrow> (string \<times> string list) list \<Rightarrow> string \<Rightarrow> string \<Rightarrow> bool" where
  "fedBy sep tabPaths graph f t \<longleftrightarrow>
     (\<exists>i\<in>set (importsOf graph f). matchOf sep tabPaths i = Some t)"

text \<open>
  The open files that a topological traversal reaches: an open file is released when
  the importer of each of its matched incoming edges is released, so a file without
  matched incoming edges is. This is the least such set: a file on a cycle of matched
  edges is not released, and neither is a file with an importer that is not.
\<close>

inductive released ::
  "char \<Rightarrow> string list \<Rightarrow> (string \<times> string list) list \<Rightarrow> string \<Rightarrow> bool"
  for sep :: char and tabPaths :: "string list" and graph :: "(string \<times> string list) list" where
  release:
    "f \<in> set tabPaths \<Longrightarrow>
     (\<forall>e\<in>set (matchedIncoming sep tabPaths graph f). released sep tabPaths graph (fst e)) \<Longrightarrow>
     released sep tabPaths graph f"

subsection \<open>The extraction cache\<close>

text \<open>The graph that a build reads off a cache in which every tab path has an entry.\<close>

definition graphFromCache ::
  "(string \<times> string list) list \<Rightarrow> tab list \<Rightarrow> (string \<times> string list) list \<Rightarrow>
     (string \<times> string list) list" where
  "graphFromCache cache tabs G =
     fold (\<lambda>t G. case truthy (getTabPath t) of
                    None \<Rightarrow> G
                  | Some p \<Rightarrow> (case map_of cache p of
                                None \<Rightarrow> G
                              | Some imps \<Rightarrow> AList.update p imps G))
       tabs G"

text \<open>Every entry of the cache of the first state is an entry of the cache of the second.\<close>

definition cacheLe :: "strategy \<Rightarrow> strategy \<Rightarrow> bool" where
  "cacheLe s s' \<longleftrightarrow> (\<forall>q v. map_of (importCache s) q = Some v \<longrightarrow> map_of (importCache s') q = Some v)"

definition allCached :: "tab list \<Rightarrow> strategy \<Rightarrow> bool" where
  "allCached tabs st \<longleftrightarrow>
     (\<forall>t\<in>set tabs. \<forall>p. truthy (getTabPath t) = Some p \<longrightarrow> map_of (importCache st) p \<noteq> None)"

subsection \<open>Candidate configuration files\<close>

text \<open>
  The parsed content of a candidate; \<open>None\<close> when the file is missing, cannot be read
  or does not parse after comment stripping.
\<close>

definition readConfig :: "host \<Rightarrow> string \<Rightarrow> string \<Rightarrow> json option" where
  "readConfig h root configFile =
     (if \<not> fileExists h (pathJoin h root configFile) then None
      else (case readFileSync h (pathJoin h root configFile) of
              None \<Rightarrow> None
            | Some content \<Rightarrow> jsonParse h (stripComments h content)))"

definition compilerOptionsOf :: "json \<Rightarrow> json" where
  "compilerOptionsOf config =
     (case jsProp config ''compilerOptions'' of
        None \<Rightarrow> JObj []
      | Some v \<Rightarrow> if jsTruthy v then v else JObj [])"

text \<open>
  The entries of \<^verbatim>\<open>compilerOptions.paths\<close> of a candidate together with its
  \<^verbatim>\<open>compilerOptions.baseUrl\<close>; \<open>None\<close> when the candidate gives no parsed content, its
  content is \<^verbatim>\<open>null\<close>, or \<^verbatim>\<open>paths\<close> is absent, falsy or without entries.
\<close>

definition candidatePaths ::
  "host \<Rightarrow> string \<Rightarrow> string \<Rightarrow> ((string \<times> json) list \<times> json option) option" where
  "candidatePaths h root configFile =
     (case readConfig h root configFile of
        None \<Rightarrow> None
      | Some config \<Rightarrow>
          if config = JNull then None
          else (case jsProp (compilerOptionsOf config) ''paths'' of
                  None \<Rightarrow> None
                | Some paths \<Rightarrow>
                    if \<not> jsTruthy paths \<or> objectEntries paths = [] then None
                    else Some (objectEntries paths, jsProp (compilerOptionsOf config) ''baseUrl'')))"

section \<open>A POSIX host for worked examples\<close>

text \<open>
  The POSIX behaviour of the \<^verbatim>\<open>path\<close> functions on absolute paths: empty and \<^verbatim>\<open>.\<close>
  segments are dropped, \<^verbatim>\<open>..\<close> removes the segment before it.
\<close>

fun dotSegments :: "string list \<Rightarrow> string list \<Rightarrow> string list" where
  "dotSegments acc [] = rev acc"
| "dotSegments acc (s # ss) =
     (if s = [] \<or> s = ''.'' then dotSegments acc ss
      else if s = ''..'' then dotSegments (tl acc) ss
      else dotSegments (s # acc) ss)"

definition posixNormalize :: "string \<Rightarrow> string" where
  "posixNormalize p =
     (case dotSegments [] (splitOn CHR ''/'' p) of
        [] \<Rightarrow> ''/''
      | s # ss \<Rightarrow> concat (map (\<lambda>x. CHR ''/'' # x) (s # ss)))"

definition posixResolve :: "string \<Rightarrow> string \<Rightarrow> string" where
  "posixResolve dir p =
     (if startsWith p ''/'' then posixNormalize p else posixNormalize (dir @ ''/'' @ p))"

definition posixJoin :: "string \<Rightarrow> string \<Rightarrow> string" where
  "posixJoin a b = posixNormalize (a @ ''/'' @ b)"

definition posixDirname :: "string \<Rightarrow> string" where
  "posixDirname p =
     posixNormalize (concat (map (\<lambda>x. CHR ''/'' # x) (butlast (splitOn CHR ''/'' p))))"

text \<open>
  A collation in the manner of the locale-aware comparison of the host: letters are
  compared without regard to case first, and a lower-case letter comes before the same
  letter in upper case. So \<^verbatim>\<open>a\<close> comes before \<^verbatim>\<open>B\<close>, as with \<^verbatim>\<open>"a".localeCompare("B")\<close>.
\<close>

definition lowerCase :: "char \<Rightarrow> nat" where
  "lowerCase c = (let n = of_char c in if 65 \<le> n \<and> n \<le> 90 then n + 32 else n)"

definition collationKey :: "string \<Rightarrow> nat list \<times> nat list" where
  "collationKey s =
     (map lowerCase s, map (\<lambda>c. if (of_char c :: nat) = lowerCase c then 0 else 1) s)"

definition alphabeticCompare :: "string \<Rightarrow> string \<Rightarrow> int" where
  "alphabeticCompare a b =
     (if collationKey a < collationKey b then - 1
      else if collationKey a = collationKey b then 0 else 1)"

text \<open>Ordering of strings by code points.\<close>

definition codePointLess :: "string \<Rightarrow> string \<Rightarrow> bool" where
  "codePointLess a b \<longleftrightarrow> map (of_char :: char \<Rightarrow> nat) a < map of_char b"

text \<open>
  \<^verbatim>\<open>fs.existsSync\<close> on a disk that holds the listed files, given by their normalised
  absolute paths: it is true of a listed file, of every directory above one, and of the
  root.
\<close>

definition onDisk :: "(string \<times> string) list \<Rightarrow> string \<Rightarrow> bool" where
  "onDisk files p \<longleftrightarrow>
     p = ''/'' \<or> list_ex (\<lambda>f. f = p \<or> startsWith f (p @ ''/'')) (map fst files)"

text \<open>
  A host given by the files on disk with their contents, the references that the
  import patterns capture in a text, the parsed form of the configuration texts, and
  the candidate configuration files. Reading a directory or a missing file fails. No
  document is open in memory, and the workspace root is \<^verbatim>\<open>/p\<close>.
\<close>

definition exampleHost ::
  "(string \<times> string) list \<Rightarrow> (string \<times> string list) list \<Rightarrow> (string \<times> json) list \<Rightarrow>
     string list \<Rightarrow> host" where
  "exampleHost files refs configs candidates =
     \<lparr>fileExists = onDisk files,
      readFileSync = map_of files,
      openDocumentText = (\<lambda>p. None),
      workspaceRoot = Some ''/p'',
      aliasConfigFiles = candidates,
      pathSep = CHR ''/'',
      pathDirname = posixDirname,
      pathResolve = posixResolve,
      pathJoin = posixJoin,
      importMatches = (\<lambda>text. case map_of refs text of None \<Rightarrow> [] | Some rs \<Rightarrow> rs),
      stripComments = (\<lambda>s. s),
      jsonParse = map_of configs,
      localeCompare = alphabeticCompare\<rparr>"

definition freshStrategy :: strategy where
  "freshStrategy = \<lparr>importGraph = [], importCache = [], pathAliases = None, baseUrl = None\<rparr>"

definition fileTab :: "string \<Rightarrow> tab" where
  "fileTab p = \<lparr>tabLabel = p, inputFsPath = Some p\<rparr>"

text \<open>
  Three files: \<^verbatim>\<open>a.js\<close> requires \<^verbatim>\<open>b.js\<close>, which requires \<^verbatim>\<open>c.js\<close>, which requires
  \<^verbatim>\<open>b.js\<close> again.
\<close>

definition chainGraph :: "(string \<times> string list) list" where
  "chainGraph = [(''/p/a.js'', [''/p/b.js'']), (''/p/b.js'', [''/p/c.js'']), (''/p/c.js'', [''/p/b.js''])]"

definition chainHost :: host where
  "chainHost =
     exampleHost
       [(''/p/a.js'', ''require(\"./b\")''), (''/p/b.js'', ''require(\"./c\")''),
        (''/p/c.js'', ''require(\"./b\") //'')]
       [(''require(\"./b\")'', [''./b'']), (''require(\"./c\")'', [''./c'']),
        (''require(\"./b\") //'', [''./b''])]
       [] []"

definition chainTabs :: "tab list" where
  "chainTabs = [fileTab ''/p/a.js'', fileTab ''/p/b.js'', fileTab ''/p/c.js'']"

text \<open>One file that requires itself.\<close>

definition selfHost :: host where
  "selfHost = exampleHost [(''/p/s.js'', ''require(\"./s\")'')] [(''require(\"./s\")'', [''./s''])] [] []"

text \<open>The tabs of the three files in another order, and the state after sorting them.\<close>

definition rotatedTabs :: "tab list" where
  "rotatedTabs = [fileTab ''/p/c.js'', fileTab ''/p/a.js'', fileTab ''/p/b.js'']"

definition rotatedState :: strategy where
  "rotatedState =
     \<lparr>importGraph =
        [(''/p/c.js'', [''/p/b.js'']), (''/p/a.js'', [''/p/b.js'']), (''/p/b.js'', [''/p/c.js''])],
      importCache =
        [(''/p/c.js'', [''/p/b.js'']), (''/p/a.js'', [''/p/b.js'']), (''/p/b.js'', [''/p/c.js''])],
      pathAliases = None, baseUrl = None\<rparr>"

text \<open>
  The state after a failed read of \<^verbatim>\<open>a.js\<close>, and the state after the three files are
  sorted from it.
\<close>

definition staleState :: strategy where
  "staleState = \<lparr>importGraph = [], importCache = [(''/p/a.js'', [])], pathAliases = None, baseUrl = None\<rparr>"

definition staleSorted :: strategy where
  "staleSorted =
     \<lparr>importGraph = [(''/p/a.js'', []), (''/p/b.js'', [''/p/c.js'']), (''/p/c.js'', [''/p/b.js''])],
      importCache = [(''/p/a.js'', []), (''/p/b.js'', [''/p/c.js'']), (''/p/c.js'', [''/p/b.js''])],
      pathAliases = None, baseUrl = None\<rparr>"

text \<open>Two tabs whose paths differ in the case of a letter, and the state after sorting them.\<close>

definition caseTabs :: "tab list" where
  "caseTabs = [fileTab ''/p/B.ts'', fileTab ''/p/a.ts'']"

definition caseState :: strategy where
  "caseState = \<lparr>importGraph = [(''/p/B.ts'', []), (''/p/a.ts'', [])],
                importCache = [(''/p/B.ts'', []), (''/p/a.ts'', [])],
                pathAliases = None, baseUrl = None\<rparr>"

text \<open>
  A workspace with three configuration files: \<^verbatim>\<open>tsconfig.json\<close> declares the alias
  \<^verbatim>\<open>@a/*\<close> with a target and the alias \<^verbatim>\<open>@c/*\<close> whose first target is the number 1,
  \<^verbatim>\<open>jsconfig.json\<close> declares the alias \<^verbatim>\<open>@b/*\<close> with a target, and \<^verbatim>\<open>broken.json\<close>
  does not parse.
\<close>

definition mixedTargetsConfig :: json where
  "mixedTargetsConfig =
     JObj [(''compilerOptions'',
            JObj [(''paths'', JObj [(''@a/*'', JArr [JStr ''src/a/*'']), (''@c/*'', JArr [JNum 1])])])]"

definition aliasConfig :: json where
  "aliasConfig =
     JObj [(''compilerOptions'', JObj [(''paths'', JObj [(''@b/*'', JArr [JStr ''src/b/*''])])])]"

definition aliasHost :: "string list \<Rightarrow> host" where
  "aliasHost candidates =
     exampleHost
       [(''/p/tsconfig.json'',
         ''{\"compilerOptions\":{\"paths\":{\"@a/*\":[\"src/a/*\"],\"@c/*\":[1]}}}''),
        (''/p/jsconfig.json'', ''{\"compilerOptions\":{\"paths\":{\"@b/*\":[\"src/b/*\"]}}}''),
        (''/p/broken.json'', ''{'')]
       []
       [(''{\"compilerOptions\":{\"paths\":{\"@a/*\":[\"src/a/*\"],\"@c/*\":[1]}}}'',
         mixedTargetsConfig),
        (''{\"compilerOptions\":{\"paths\":{\"@b/*\":[\"src/b/*\"]}}}'', aliasConfig)]
       candidates"

section \<open>Properties\<close>

subsection \<open>Suffix matching\<close>

lemma commonPrefixLength_drop:
  "n < length xs \<Longrightarrow> n < length ys \<Longrightarrow>
   commonPrefixLength (drop n xs) (drop n ys) =
     (if xs ! n = ys ! n then Suc (commonPrefixLength (drop (Suc n) xs) (drop (Suc n) ys)) else 0)"
  by (simp add: Cons_nth_drop_Suc [symmetric])

lemma matchLoop_eq:
  "1 \<le> i \<Longrightarrow> minLength = min (length rs) (length ts) \<Longrightarrow>
   matchLoop rs ts minLength i m =
     m + commonPrefixLength (drop (i - 1) (rev rs)) (drop (i - 1) (rev ts))"
proof (induction rs ts minLength i m rule: matchLoop.induct)
  case (1 rs ts minLength i m)
  show ?case
  proof (cases "i \<le> minLength")
    case False
    then have "length rs \<le> i - 1 \<or> length ts \<le> i - 1" using 1(2,3) by auto
    then have "commonPrefixLength (drop (i - 1) (rev rs)) (drop (i - 1) (rev ts)) = 0"
      by (cases "drop (i - 1) (rev rs)"; cases "drop (i - 1) (rev ts)"; auto)
    then show ?thesis using False by (simp add: matchLoop.simps [of rs ts minLength i m])
  next
    case True
    then have lt: "i - 1 < length (rev rs)" "i - 1 < length (rev ts)" using 1(2,3) by auto
    have nth: "rev rs ! (i - 1) = rs ! (length rs - i)" "rev ts ! (i - 1) = ts ! (length ts - i)"
      using lt 1(2) by (simp_all add: rev_nth)
    show ?thesis
    proof (cases "rs ! (length rs - i) = ts ! (length ts - i)")
      case eq: True
      have "matchLoop rs ts minLength i m = matchLoop rs ts minLength (i + 1) (m + 1)"
        using True eq by (simp add: matchLoop.simps [of rs ts minLength i m])
      also have "\<dots> = (m + 1) + commonPrefixLength (drop i (rev rs)) (drop i (rev ts))"
        using "1.IH" [OF True eq] 1(3) by simp
      finally show ?thesis
        using commonPrefixLength_drop [OF lt] nth eq 1(2) by simp
    next
      case neq: False
      then show ?thesis
        using True commonPrefixLength_drop [OF lt] nth
        by (simp add: matchLoop.simps [of rs ts minLength i m])
    qed
  qed
qed

lemma suffixMatchLength_eq:
  "suffixMatchLength (splitOn sep a) (splitOn sep b) = sharedTrailingSegments sep a b"
  by (simp add: suffixMatchLength_def sharedTrailingSegments_def matchLoop_eq)

lemma firstBest_unique: "firstBest L xs t \<Longrightarrow> firstBest L xs u \<Longrightarrow> t = u"
  unfolding firstBest_def
  by (metis linorder_neqE_nat not_less)

lemma fold_considerTab:
  "fold (considerTab sep rs) xs (None, 0) = (b, n) \<Longrightarrow>
   (b = None \<longrightarrow> n = 0 \<and> (\<forall>x\<in>set xs. suffixMatchLength rs (splitOn sep x) < 2)) \<and>
   (\<forall>t. b = Some t \<longrightarrow> n = suffixMatchLength rs (splitOn sep t) \<and>
        firstBest (\<lambda>x. suffixMatchLength rs (splitOn sep x)) xs t)"
proof (induction xs arbitrary: b n rule: rev_induct)
  case Nil
  then show ?case by simp
next
  case (snoc x xs)
  obtain b0 n0 where f: "fold (considerTab sep rs) xs (None, 0) = (b0, n0)" by force
  note IH = snoc.IH [OF f]
  let ?L = "\<lambda>x. suffixMatchLength rs (splitOn sep x)"
  have step: "(b, n) = considerTab sep rs x (b0, n0)" using snoc.prems f by simp
  show ?case
  proof (cases "?L x \<ge> 2 \<and> ?L x > n0")
    case True
    then have bn: "b = Some x" "n = ?L x" using step by (simp_all add: considerTab_def)
    have all: "\<forall>j<length xs. ?L (xs ! j) < ?L x"
    proof (cases b0)
      case None
      then show ?thesis using IH True by (metis nth_mem order_less_le_trans)
    next
      case (Some t0)
      then have "firstBest ?L xs t0" "n0 = ?L t0" using IH by auto
      then show ?thesis using True unfolding firstBest_def by (metis order_le_less_trans)
    qed
    have "firstBest ?L (xs @ [x]) x"
      unfolding firstBest_def
      apply (rule exI [of _ "length xs"])
      using True all by (auto simp: nth_append less_Suc_eq dest: less_imp_le)
    then show ?thesis using bn by simp
  next
    case False
    then have bn: "b = b0" "n = n0" using step by (auto simp: considerTab_def)
    show ?thesis
    proof (cases b0)
      case None
      then show ?thesis using IH bn False by auto
    next
      case (Some t0)
      then have fb: "firstBest ?L xs t0" and n0: "n0 = ?L t0" using IH by auto
      then obtain i where i: "i < length xs" "xs ! i = t0" "2 \<le> ?L t0"
        "\<forall>j<length xs. ?L (xs ! j) \<le> ?L t0" "\<forall>j<i. ?L (xs ! j) < ?L t0"
        unfolding firstBest_def by blast
      have le: "?L x \<le> ?L t0" using False n0 i(3) by auto
      have "firstBest ?L (xs @ [x]) t0"
        unfolding firstBest_def
        apply (rule exI [of _ i])
        using i le by (auto simp: nth_append less_Suc_eq)
      then show ?thesis using bn Some n0 by simp
    qed
  qed
qed

lemma findMatchingTabPath_exact:
  "resolvedPath \<in> set tabPaths \<Longrightarrow> findMatchingTabPath sep resolvedPath tabPaths = Some resolvedPath"
  by (simp add: findMatchingTabPath_def)

lemma findMatchingTabPath_fuzzy:
  assumes "resolvedPath \<notin> set tabPaths"
  shows "(findMatchingTabPath sep resolvedPath tabPaths = Some t \<longleftrightarrow>
            firstBest (sharedTrailingSegments sep resolvedPath) tabPaths t) \<and>
         (findMatchingTabPath sep resolvedPath tabPaths = None \<longleftrightarrow>
            (\<forall>u\<in>set tabPaths. sharedTrailingSegments sep resolvedPath u < 2))"
proof -
  let ?L = "\<lambda>x. suffixMatchLength (splitOn sep resolvedPath) (splitOn sep x)"
  have L: "?L = sharedTrailingSegments sep resolvedPath"
    by (simp add: suffixMatchLength_eq fun_eq_iff)
  obtain b n where f: "fold (considerTab sep (splitOn sep resolvedPath)) tabPaths (None, 0) = (b, n)"
    by force
  have res: "findMatchingTabPath sep resolvedPath tabPaths = b"
    using assms f by (simp add: findMatchingTabPath_def)
  note F = fold_considerTab [OF f]
  have none: "b = None \<longleftrightarrow> (\<forall>u\<in>set tabPaths. ?L u < 2)"
  proof
    assume "b = None" then show "\<forall>u\<in>set tabPaths. ?L u < 2" using F by simp
  next
    assume small: "\<forall>u\<in>set tabPaths. ?L u < 2"
    show "b = None"
    proof (cases b)
      case None then show ?thesis .
    next
      case (Some t0)
      then have "firstBest ?L tabPaths t0" using F by simp
      then have "t0 \<in> set tabPaths \<and> 2 \<le> ?L t0" unfolding firstBest_def by auto
      then show ?thesis using small by auto
    qed
  qed
  have some: "b = Some t \<longleftrightarrow> firstBest ?L tabPaths t"
  proof
    assume "b = Some t" then show "firstBest ?L tabPaths t" using F by simp
  next
    assume fb: "firstBest ?L tabPaths t"
    then have "t \<in> set tabPaths \<and> 2 \<le> ?L t" unfolding firstBest_def by auto
    then have "b \<noteq> None" using none by auto
    then obtain t0 where t0: "b = Some t0" by auto
    then have "firstBest ?L tabPaths t0" using F by simp
    then show "b = Some t" using fb t0 firstBest_unique by blast
  qed
  show ?thesis using none some by (simp add: res suffixMatchLength_eq)
qed

lemma findMatchingTabPath_mem:
  assumes "findMatchingTabPath sep r T = Some t"
  shows "t \<in> set T"
proof (cases "r \<in> set T")
  case True
  then show ?thesis using assms by (simp add: findMatchingTabPath_def)
next
  case False
  then have "firstBest (sharedTrailingSegments sep r) T t"
    using findMatchingTabPath_fuzzy [OF False, of sep t] assms by simp
  then show ?thesis unfolding firstBest_def by auto
qed

text \<open>
  C6. When the resolved path is not itself an open path, the matcher returns an open
  path \<open>t\<close> exactly when \<open>t\<close> shares at least two consecutive trailing segments with
  the resolved path, no open path shares more, and every open path evaluated before
  \<open>t\<close> shares strictly fewer (so of several longest ones the first evaluated wins).
  It returns nothing exactly when every open path shares fewer than two trailing
  segments; a shared file name alone is one segment and is rejected.
\<close>

theorem findMatchingTabPath_longest_trailing_run:
  assumes "resolvedPath \<notin> set tabPaths"
  shows "(findMatchingTabPath sep resolvedPath tabPaths = Some t \<longleftrightarrow>
            (\<exists>i<length tabPaths. tabPaths ! i = t \<and>
               2 \<le> sharedTrailingSegments sep resolvedPath t \<and>
               (\<forall>j<length tabPaths.
                  sharedTrailingSegments sep resolvedPath (tabPaths ! j)
                    \<le> sharedTrailingSegments sep resolvedPath t) \<and>
               (\<forall>j<i.
                  sharedTrailingSegments sep resolvedPath (tabPaths ! j)
                    < sharedTrailingSegments sep resolvedPath t))) \<and>
         (findMatchingTabPath sep resolvedPath tabPaths = None \<longleftrightarrow>
            (\<forall>u\<in>set tabPaths. sharedTrailingSegments sep resolvedPath u < 2))"
  using findMatchingTabPath_fuzzy [OF assms, of sep t] unfolding firstBest_def by simp

theorem findMatchingTabPath_longest_trailing_run_witness:
  "''/checkout/tree-b/src/util.ts'' \<notin> set [''/work/tree-a/lib/util.ts'', ''/work/tree-a/src/util.ts''] \<and>
   findMatchingTabPath CHR ''/'' ''/checkout/tree-b/src/util.ts''
       [''/work/tree-a/lib/util.ts'', ''/work/tree-a/src/util.ts'']
     = Some ''/work/tree-a/src/util.ts'' \<and>
   ''/other/random/util.ts'' \<notin> set [''/work/tree-a/src/util.ts''] \<and>
   sharedTrailingSegments CHR ''/'' ''/other/random/util.ts'' ''/work/tree-a/src/util.ts'' = 1 \<and>
   findMatchingTabPath CHR ''/'' ''/other/random/util.ts'' [''/work/tree-a/src/util.ts''] = None"
proof -
  let ?T = "[''/work/tree-a/lib/util.ts'', ''/work/tree-a/src/util.ts'']"
  have n1: "''/checkout/tree-b/src/util.ts'' \<notin> set ?T" by simp
  have n2: "''/other/random/util.ts'' \<notin> set [''/work/tree-a/src/util.ts'']" by simp
  have s1: "sharedTrailingSegments CHR ''/'' ''/checkout/tree-b/src/util.ts'' ''/work/tree-a/lib/util.ts'' = 1"
    by (simp add: sharedTrailingSegments_def)
  have s2: "sharedTrailingSegments CHR ''/'' ''/checkout/tree-b/src/util.ts'' ''/work/tree-a/src/util.ts'' = 2"
    by (simp add: sharedTrailingSegments_def)
  have s3: "sharedTrailingSegments CHR ''/'' ''/other/random/util.ts'' ''/work/tree-a/src/util.ts'' = 1"
    by (simp add: sharedTrailingSegments_def)
  have "\<exists>i<length ?T. ?T ! i = ''/work/tree-a/src/util.ts'' \<and>
          2 \<le> sharedTrailingSegments CHR ''/'' ''/checkout/tree-b/src/util.ts'' ''/work/tree-a/src/util.ts'' \<and>
          (\<forall>j<length ?T.
             sharedTrailingSegments CHR ''/'' ''/checkout/tree-b/src/util.ts'' (?T ! j)
               \<le> sharedTrailingSegments CHR ''/'' ''/checkout/tree-b/src/util.ts'' ''/work/tree-a/src/util.ts'') \<and>
          (\<forall>j<i.
             sharedTrailingSegments CHR ''/'' ''/checkout/tree-b/src/util.ts'' (?T ! j)
               < sharedTrailingSegments CHR ''/'' ''/checkout/tree-b/src/util.ts'' ''/work/tree-a/src/util.ts'')"
    by (rule exI [of _ 1]) (simp add: s1 s2 less_Suc_eq all_conj_distrib)
  then have a: "findMatchingTabPath CHR ''/'' ''/checkout/tree-b/src/util.ts'' ?T = Some ''/work/tree-a/src/util.ts''"
    using findMatchingTabPath_longest_trailing_run
            [OF n1, of "CHR ''/''" "''/work/tree-a/src/util.ts''", THEN conjunct1]
    by blast
  have b: "findMatchingTabPath CHR ''/'' ''/other/random/util.ts'' [''/work/tree-a/src/util.ts''] = None"
    using findMatchingTabPath_longest_trailing_run
            [OF n2, of "CHR ''/''" "''x''", THEN conjunct2] s3
    by simp
  show ?thesis using n1 n2 a b s3 by blast
qed

subsection \<open>Extension and index probing\<close>

lemma find_append_first:
  "List.find P (xs @ ys) = (case List.find P xs of Some x \<Rightarrow> Some x | None \<Rightarrow> List.find P ys)"
  by (induction xs) auto

lemma resolveWithExtensions_find:
  "resolveWithExtensions h resolved = List.find (fileExists h) (probeOrder h resolved)"
proof -
  have "probeOrder h resolved =
      map (\<lambda>ext. resolved @ ext) [''.ts'', ''.tsx'', ''.js'', ''.jsx'', ''''] @
      map (\<lambda>ext. pathJoin h resolved (''index'' @ ext)) [''.ts'', ''.tsx'', ''.js'', ''.jsx'']"
    by (simp add: probeOrder_def)
  then show ?thesis
    unfolding resolveWithExtensions_def by (simp only: find_append_first)
qed

text \<open>
  C5, as the code has it. The probes are, in this order: the candidate with \<^verbatim>\<open>.ts\<close>,
  \<^verbatim>\<open>.tsx\<close>, \<^verbatim>\<open>.js\<close>, \<^verbatim>\<open>.jsx\<close> appended, then the bare candidate (the empty extension,
  last in the list), then the \<^verbatim>\<open>index\<close> file of the candidate taken as a directory,
  with \<^verbatim>\<open>.ts\<close>, \<^verbatim>\<open>.tsx\<close>, \<^verbatim>\<open>.js\<close>, \<^verbatim>\<open>.jsx\<close>. The result is the first probe that
  exists, and nothing when none exists.
\<close>

theorem resolveWithExtensions_first_existing_probe:
  "(resolveWithExtensions h resolved = Some p \<longleftrightarrow>
      (\<exists>i<length (probeOrder h resolved).
         probeOrder h resolved ! i = p \<and> fileExists h p \<and>
         (\<forall>j<i. \<not> fileExists h (probeOrder h resolved ! j)))) \<and>
   (resolveWithExtensions h resolved = None \<longleftrightarrow>
      (\<forall>q\<in>set (probeOrder h resolved). \<not> fileExists h q)) \<and>
   probeOrder h resolved =
     [resolved @ ''.ts'', resolved @ ''.tsx'', resolved @ ''.js'', resolved @ ''.jsx'', resolved,
      pathJoin h resolved ''index.ts'', pathJoin h resolved ''index.tsx'',
      pathJoin h resolved ''index.js'', pathJoin h resolved ''index.jsx'']"
proof -
  have "resolveWithExtensions h resolved = Some p \<longleftrightarrow>
      (\<exists>i<length (probeOrder h resolved).
         probeOrder h resolved ! i = p \<and> fileExists h p \<and>
         (\<forall>j<i. \<not> fileExists h (probeOrder h resolved ! j)))"
    unfolding resolveWithExtensions_find find_Some_iff by auto
  moreover have "resolveWithExtensions h resolved = None \<longleftrightarrow>
      (\<forall>q\<in>set (probeOrder h resolved). \<not> fileExists h q)"
    unfolding resolveWithExtensions_find find_None_iff by auto
  ultimately show ?thesis by (simp add: probeOrder_def)
qed

text \<open>
  Three examples: the candidate \<^verbatim>\<open>/proj/src/util\<close> with \<^verbatim>\<open>/proj/src/util.ts\<close> on disk
  resolves to that file; the candidate \<^verbatim>\<open>/proj/src/lib\<close> with only
  \<^verbatim>\<open>/proj/src/lib/index.ts\<close> on disk resolves to the directory \<^verbatim>\<open>/proj/src/lib\<close>, since
  the bare candidate exists and is probed before the index files; and the same
  candidate with nothing on disk resolves to nothing.
\<close>

theorem resolveWithExtensions_first_existing_probe_witness:
  "resolveWithExtensions (exampleHost [(''/proj/src/util.ts'', ''x'')] [] [] []) ''/proj/src/util''
     = Some ''/proj/src/util.ts'' \<and>
   fileExists (exampleHost [(''/proj/src/lib/index.ts'', ''x'')] [] [] []) ''/proj/src/lib/index.ts'' \<and>
   resolveWithExtensions (exampleHost [(''/proj/src/lib/index.ts'', ''x'')] [] [] []) ''/proj/src/lib''
     = Some ''/proj/src/lib'' \<and>
   resolveWithExtensions (exampleHost [] [] [] []) ''/proj/src/lib'' = None"
proof -
  let ?h1 = "exampleHost [(''/proj/src/util.ts'', ''x'')] [] [] []"
  let ?h2 = "exampleHost [(''/proj/src/lib/index.ts'', ''x'')] [] [] []"
  let ?h3 = "exampleHost [] [] [] []"
  have "\<exists>i<length (probeOrder ?h1 ''/proj/src/util'').
          probeOrder ?h1 ''/proj/src/util'' ! i = ''/proj/src/util.ts'' \<and>
          fileExists ?h1 ''/proj/src/util.ts'' \<and>
          (\<forall>j<i. \<not> fileExists ?h1 (probeOrder ?h1 ''/proj/src/util'' ! j))"
    by (rule exI [of _ 0]) (simp add: probeOrder_def exampleHost_def onDisk_def)
  then have a: "resolveWithExtensions ?h1 ''/proj/src/util'' = Some ''/proj/src/util.ts''"
    using resolveWithExtensions_first_existing_probe
            [of ?h1 "''/proj/src/util''" "''/proj/src/util.ts''", THEN conjunct1]
    by blast
  have e: "fileExists ?h2 ''/proj/src/lib/index.ts''"
    by (simp add: exampleHost_def onDisk_def)
  have "\<exists>i<length (probeOrder ?h2 ''/proj/src/lib'').
          probeOrder ?h2 ''/proj/src/lib'' ! i = ''/proj/src/lib'' \<and>
          fileExists ?h2 ''/proj/src/lib'' \<and>
          (\<forall>j<i. \<not> fileExists ?h2 (probeOrder ?h2 ''/proj/src/lib'' ! j))"
    by (rule exI [of _ 4])
       (simp add: probeOrder_def exampleHost_def onDisk_def startsWith_def less_Suc_eq numeral_nat
          all_conj_distrib)
  then have b: "resolveWithExtensions ?h2 ''/proj/src/lib'' = Some ''/proj/src/lib''"
    using resolveWithExtensions_first_existing_probe
            [of ?h2 "''/proj/src/lib''" "''/proj/src/lib''", THEN conjunct1]
    by blast
  have "\<forall>q\<in>set (probeOrder ?h3 ''/proj/src/lib''). \<not> fileExists ?h3 q"
    by code_simp
  then have c: "resolveWithExtensions ?h3 ''/proj/src/lib'' = None"
    using resolveWithExtensions_first_existing_probe
            [of ?h3 "''/proj/src/lib''" "''x''", THEN conjunct2, THEN conjunct1]
    by blast
  show ?thesis using a e b c by blast
qed

text \<open>
  The bare candidate is not probed first: when both \<^verbatim>\<open>/p/u\<close> and \<^verbatim>\<open>/p/u.ts\<close> exist,
  the candidate \<^verbatim>\<open>/p/u\<close> resolves to \<^verbatim>\<open>/p/u.ts\<close>.
\<close>

theorem resolveWithExtensions_bare_not_first:
  "fileExists (exampleHost [(''/p/u'', ''x''), (''/p/u.ts'', ''y'')] [] [] []) ''/p/u'' \<and>
   resolveWithExtensions (exampleHost [(''/p/u'', ''x''), (''/p/u.ts'', ''y'')] [] [] []) ''/p/u''
     = Some ''/p/u.ts'' \<and>
   resolveWithExtensions (exampleHost [(''/p/u'', ''x''), (''/p/u.ts'', ''y'')] [] [] []) ''/p/u''
     \<noteq> Some ''/p/u''"
  by (simp add: resolveWithExtensions_def exampleHost_def onDisk_def)

subsection \<open>The traversal ends\<close>

lemma getOr0_update: "getOr0 (AList.update k v m) x = (if x = k then v else getOr0 m x)"
  by (simp add: getOr0_def update_conv')

lemma relaxImport_skip:
  "targetOf r i = None \<Longrightarrow> relaxImport r d i st = st"
  by (simp add: relaxImport_def targetOf_def)

lemma relaxImport_count:
  "targetOf r i = Some t \<Longrightarrow>
   getOr0 (incomingCount (relaxImport r d i st)) x =
     (if x = t then getOr0 (incomingCount st) t - 1 else getOr0 (incomingCount st) x)"
  apply (simp add: relaxImport_def targetOf_def Let_def getOr0_update)
  apply (simp add: getOr0_def split: option.splits)
  done

lemma relaxImport_queue:
  "targetOf r i = Some t \<Longrightarrow>
   queue (relaxImport r d i st) =
     (if getOr0 (incomingCount st) t - 1 = 0 then queue st @ [t] else queue st)"
  apply (simp add: relaxImport_def targetOf_def Let_def)
  apply (simp add: getOr0_def split: option.splits)
  done

lemma relaxImport_depths:
  "targetOf r i = Some t \<Longrightarrow>
   map_of (depths (relaxImport r d i st)) =
     (map_of (depths st))(t \<mapsto> max (getOr0 (depths st) t) (d + 1))"
  by (simp add: relaxImport_def targetOf_def Let_def update_conv')

lemma pendingInto_cong:
  "(\<And>x. D x = D' x) \<Longrightarrow> pendingInto tgt g D t = pendingInto tgt g D' t"
  by (simp add: pendingInto_def)

lemma pendingInto_split:
  "distinct (map fst g) \<Longrightarrow> \<not> D f \<Longrightarrow>
   pendingInto tgt g D t =
     pendingInto tgt g (\<lambda>x. D x \<or> x = f) t + edgesInto tgt (importsOf g f) t"
proof (induction g)
  case Nil
  then show ?case by (simp add: pendingInto_def importsOf_def edgesInto_def)
next
  case (Cons e g)
  obtain k v where e: "e = (k, v)" by (cases e)
  show ?case
  proof (cases "k = f")
    case True
    then have "f \<notin> fst ` set g" using Cons.prems e by auto
    then have nomap: "map_of g f = None" by (simp add: map_of_eq_None_iff)
    have rest: "pendingInto tgt g D t = pendingInto tgt g (\<lambda>x. D x \<or> x = f) t"
      using \<open>f \<notin> fst ` set g\<close> unfolding pendingInto_def
      by (intro arg_cong [where f = sum_list] map_cong) auto
    show ?thesis using True e Cons.prems rest
      by (simp add: pendingInto_def importsOf_def)
  next
    case False
    have "pendingInto tgt g D t =
       pendingInto tgt g (\<lambda>x. D x \<or> x = f) t + edgesInto tgt (importsOf g f) t"
      using Cons by simp
    then show ?thesis using False e
      by (simp add: pendingInto_def importsOf_def)
  qed
qed

lemma innerInv_start:
  assumes inv: "kahnInv tgt g T st0" and q: "queue st0 = f # rest" and dg: "distinct (map fst g)"
  shows "innerInv tgt g T st0 f (importsOf g f) (st0\<lparr>queue := rest\<rparr>)"
proof -
  let ?st = "st0\<lparr>queue := rest\<rparr>"
  have fT: "f \<in> set T" and f0: "getOr0 (incomingCount st0) f = 0" and fr: "f \<notin> set rest"
    and dr: "distinct rest" and rT: "set rest \<subseteq> set T"
    using inv q by (auto simp: kahnInv_def)
  have notdone: "\<not> isDone T st0 f" using q by (simp add: isDone_def)
  have dn: "isDone T ?st x = (isDone T st0 x \<or> x = f)" for x
    using fT f0 fr q by (auto simp: isDone_def)
  have cnt: "getOr0 (incomingCount ?st) t =
      pendingInto tgt g (isDone T ?st) t + edgesInto tgt (importsOf g f) t" for t
  proof -
    have "getOr0 (incomingCount st0) t = pendingInto tgt g (isDone T st0) t"
      using inv by (simp add: kahnInv_def)
    also have "\<dots> = pendingInto tgt g (\<lambda>x. isDone T st0 x \<or> x = f) t
                     + edgesInto tgt (importsOf g f) t"
      by (rule pendingInto_split [where D = "isDone T st0" and f = f, OF dg notdone])
    also have "pendingInto tgt g (\<lambda>x. isDone T st0 x \<or> x = f) t
                 = pendingInto tgt g (isDone T ?st) t"
      by (rule pendingInto_cong) (simp add: dn)
    finally show ?thesis by simp
  qed
  show ?thesis
    unfolding innerInv_def
    using dr rT fr f0 inv q dn cnt by (auto simp: kahnInv_def)
qed

lemma innerInv_step:
  assumes J: "innerInv tgt g T st0 f (i # rem) st"
    and tgt: "tgt = targetOf r" and range: "\<And>i t. tgt i = Some t \<Longrightarrow> t \<in> set T"
  shows "innerInv tgt g T st0 f rem (relaxImport r d i st)"
proof (cases "tgt i")
  case None
  then have same: "relaxImport r d i st = st" using tgt by (simp add: relaxImport_skip)
  have e: "edgesInto tgt (i # rem) = edgesInto tgt rem"
    using None by (simp add: edgesInto_def fun_eq_iff)
  show ?thesis using J unfolding innerInv_def same e .
next
  case (Some t)
  let ?st' = "relaxImport r d i st"
  have J1: "distinct (queue st)" and J2: "set (queue st) \<subseteq> set T" and J3: "f \<notin> set (queue st)"
    and J4: "\<forall>t\<in>set (queue st). getOr0 (incomingCount st) t = 0"
    and f0: "getOr0 (incomingCount st) f = 0"
    and J6: "\<forall>x. isDone T st x = (isDone T st0 x \<or> x = f)"
    and J7: "\<forall>t. getOr0 (incomingCount st) t =
               pendingInto tgt g (isDone T st) t + edgesInto tgt (i # rem) t"
    using J unfolding innerInv_def by blast+
  have ti: "targetOf r i = Some t" using Some tgt by simp
  have tT: "t \<in> set T" using range Some by blast
  have edges: "edgesInto tgt (i # rem) x =
      (if x = t then Suc (edgesInto tgt rem x) else edgesInto tgt rem x)" for x
    using Some by (auto simp: edgesInto_def)
  have pos: "getOr0 (incomingCount st) t \<ge> 1" using J7 [rule_format, of t] edges [of t] by simp
  have tf: "t \<noteq> f" using pos f0 by auto
  have tq: "t \<notin> set (queue st)" using J4 pos by auto
  have cnt': "getOr0 (incomingCount ?st') x =
      (if x = t then getOr0 (incomingCount st) t - 1 else getOr0 (incomingCount st) x)" for x
    by (rule relaxImport_count [OF ti])
  have q': "queue ?st' = (if getOr0 (incomingCount st) t - 1 = 0 then queue st @ [t] else queue st)"
    by (rule relaxImport_queue [OF ti])
  have notdone_t: "\<not> isDone T st t" using pos by (simp add: isDone_def)
  have done_same: "isDone T ?st' x = isDone T st x" for x
  proof (cases "x = t")
    case True
    then show ?thesis using notdone_t cnt' [of t] q' by (auto simp: isDone_def)
  next
    case False
    then show ?thesis using cnt' [of x] q' by (auto simp: isDone_def)
  qed
  have pend: "pendingInto tgt g (isDone T ?st') x = pendingInto tgt g (isDone T st) x" for x
    by (rule pendingInto_cong) (rule done_same)
  have c1: "distinct (queue ?st')" using J1 tq q' by auto
  have c2: "set (queue ?st') \<subseteq> set T" using J2 tT q' by auto
  have c3: "f \<notin> set (queue ?st')" using J3 tf q' by auto
  have c4: "\<forall>x\<in>set (queue ?st'). getOr0 (incomingCount ?st') x = 0"
  proof
    fix x assume x: "x \<in> set (queue ?st')"
    show "getOr0 (incomingCount ?st') x = 0"
    proof (cases "x = t")
      case True
      then show ?thesis using x q' tq cnt' [of t] by (auto split: if_splits)
    next
      case False
      then have "x \<in> set (queue st)" using x q' by (auto split: if_splits)
      then show ?thesis using J4 False cnt' [of x] by simp
    qed
  qed
  have c5: "getOr0 (incomingCount ?st') f = 0" using f0 tf cnt' [of f] by simp
  have c6: "\<forall>x. isDone T ?st' x = (isDone T st0 x \<or> x = f)"
    using J6 done_same by simp
  have c7: "\<forall>x. getOr0 (incomingCount ?st') x = pendingInto tgt g (isDone T ?st') x + edgesInto tgt rem x"
  proof
    fix x
    have "getOr0 (incomingCount st) x = pendingInto tgt g (isDone T st) x + edgesInto tgt (i # rem) x"
      using J7 by blast
    then show "getOr0 (incomingCount ?st') x = pendingInto tgt g (isDone T ?st') x + edgesInto tgt rem x"
      using cnt' [of x] pend [of x] edges [of x] by (auto split: if_splits)
  qed
  show ?thesis unfolding innerInv_def using c1 c2 c3 c4 c5 c6 c7 by blast
qed

lemma innerInv_fold:
  assumes tgt: "tgt = targetOf r" and range: "\<And>i t. tgt i = Some t \<Longrightarrow> t \<in> set T"
  shows "innerInv tgt g T st0 f rem st \<Longrightarrow>
         innerInv tgt g T st0 f [] (fold (relaxImport r d) rem st)"
proof (induction rem arbitrary: st)
  case Nil
  then show ?case by simp
next
  case (Cons i rem)
  have "innerInv tgt g T st0 f rem (relaxImport r d i st)"
    by (rule innerInv_step [OF Cons.prems tgt range])
  then show ?case using Cons.IH by simp
qed

lemma processNext_unfold:
  "queue st = f # rest \<Longrightarrow>
   processNext g r st = fold (relaxImport r (getOr0 (depths st) f)) (importsOf g f) (st\<lparr>queue := rest\<rparr>)"
  by (simp add: processNext_def importsOf_def)

lemma length_filter_strict:
  "(\<And>x. x \<in> set xs \<Longrightarrow> P' x \<Longrightarrow> P x) \<Longrightarrow> a \<in> set xs \<Longrightarrow> P a \<Longrightarrow> \<not> P' a \<Longrightarrow>
   length (filter P' xs) < length (filter P xs)"
proof (induction xs)
  case Nil
  then show ?case by simp
next
  case (Cons x xs)
  have le: "length (filter P' xs) \<le> length (filter P xs)"
  proof -
    have "filter P' xs = filter P' (filter P xs)"
      using Cons.prems(1) by (auto simp: filter_filter intro: filter_cong)
    then show ?thesis by (metis length_filter_le)
  qed
  show ?case
  proof (cases "a = x")
    case True
    then show ?thesis using Cons.prems le by auto
  next
    case False
    then have "length (filter P' xs) < length (filter P xs)"
      using Cons by auto
    then show ?thesis using Cons.prems(1) [of x] by auto
  qed
qed

lemma processNext_inv:
  assumes inv: "kahnInv tgt g T st" and ne: "queue st \<noteq> []" and dg: "distinct (map fst g)"
    and tgt: "tgt = targetOf r" and range: "\<And>i t. tgt i = Some t \<Longrightarrow> t \<in> set T"
  shows "kahnInv tgt g T (processNext g r st) \<and> undone T (processNext g r st) < undone T st"
proof -
  obtain f rest where q: "queue st = f # rest" using ne by (cases "queue st") auto
  let ?st' = "processNext g r st"
  have J0: "innerInv tgt g T st f (importsOf g f) (st\<lparr>queue := rest\<rparr>)"
    by (rule innerInv_start [OF inv q dg])
  have J: "innerInv tgt g T st f [] ?st'"
    unfolding processNext_unfold [OF q]
    using innerInv_fold [OF tgt _ J0] range by blast
  have e0: "edgesInto tgt [] = (\<lambda>t. 0)" by (simp add: edgesInto_def fun_eq_iff)
  have inv': "kahnInv tgt g T ?st'"
    using J unfolding innerInv_def kahnInv_def e0 by auto
  have fT: "f \<in> set T" using inv q by (auto simp: kahnInv_def)
  have nd: "\<not> isDone T st f" using q by (simp add: isDone_def)
  have d': "isDone T ?st' x = (isDone T st x \<or> x = f)" for x
    using J unfolding innerInv_def by blast
  have "undone T ?st' < undone T st"
    unfolding undone_def
    by (rule length_filter_strict [where a = f]) (use fT nd d' in auto)
  then show ?thesis using inv' by simp
qed

lemma drainQueue_rule:
  assumes dg: "distinct (map fst g)"
    and tgt: "tgt = targetOf r" and range: "\<And>i t. tgt i = Some t \<Longrightarrow> t \<in> set T"
    and step: "\<And>s. kahnInv tgt g T s \<Longrightarrow> I s \<Longrightarrow> queue s \<noteq> [] \<Longrightarrow> I (processNext g r s)"
  shows "kahnInv tgt g T st \<Longrightarrow> I st \<Longrightarrow>
         \<exists>st'. drainQueue g r st = Some st' \<and> queue st' = [] \<and> I st' \<and> kahnInv tgt g T st'"
proof (induction "undone T st" arbitrary: st rule: less_induct)
  case less
  show ?case
  proof (cases "queue st = []")
    case True
    then show ?thesis using less.prems by (simp add: drainQueue.simps)
  next
    case False
    have a: "kahnInv tgt g T (processNext g r st)" "undone T (processNext g r st) < undone T st"
      using processNext_inv [OF less.prems(1) False dg tgt range] by simp_all
    have b: "I (processNext g r st)" using step less.prems False by blast
    from less.hyps [OF a(2) a(1) b] obtain st' where
      "drainQueue g r (processNext g r st) = Some st'" "queue st' = []" "I st'" "kahnInv tgt g T st'"
      by blast
    then show ?thesis using False by (subst drainQueue.simps) simp
  qed
qed

subsection \<open>The counting phase\<close>

lemma truthy_Some: "truthy p = Some s \<longleftrightarrow> p = Some s \<and> s \<noteq> []"
  by (auto simp: truthy_def split: option.splits)


lemma matchOf_mem: "matchOf sep T i = Some t \<Longrightarrow> t \<in> set T"
  by (auto simp: matchOf_def truthy_Some dest: findMatchingTabPath_mem)

lemma targetOf_update:
  "t \<noteq> [] \<Longrightarrow> targetOf (AList.update k t r) i = (if i = k then Some t else targetOf r i)"
  by (simp add: targetOf_def update_conv' truthy_def)

lemma countImport_unfold:
  "countImport sep T i (r, c) =
     (case matchOf sep T i of
        None \<Rightarrow> (r, c)
      | Some t \<Rightarrow> (AList.update i t r, AList.update t (getOr0 c t + 1) c))"
  by (simp add: countImport_def matchOf_def split: option.splits)

lemma countImport_fold:
  "fold (countImport sep T) is (r, c) = (r', c') \<Longrightarrow>
   (\<forall>i. targetOf r i = (if i \<in> S then matchOf sep T i else None)) \<Longrightarrow>
   (\<forall>i. targetOf r' i = (if i \<in> S \<union> set is then matchOf sep T i else None)) \<and>
   (\<forall>t. getOr0 c' t = getOr0 c t + edgesInto (matchOf sep T) is t)"
proof (induction "is" arbitrary: r c S)
  case Nil
  then show ?case by (simp add: edgesInto_def)
next
  case (Cons i "is")
  show ?case
  proof (cases "matchOf sep T i")
    case None
    then have f: "fold (countImport sep T) is (r, c) = (r', c')"
      using Cons.prems(1) by (simp add: countImport_unfold)
    have S': "\<forall>j. targetOf r j = (if j \<in> insert i S then matchOf sep T j else None)"
      using Cons.prems(2) None by auto
    have e: "edgesInto (matchOf sep T) (i # is) t = edgesInto (matchOf sep T) is t" for t
      using None by (simp add: edgesInto_def)
    show ?thesis using Cons.IH [OF f S'] e by simp
  next
    case (Some t)
    then have tne: "t \<noteq> []" by (simp add: matchOf_def truthy_Some)
    let ?r = "AList.update i t r" and ?c = "AList.update t (getOr0 c t + 1) c"
    have f: "fold (countImport sep T) is (?r, ?c) = (r', c')"
      using Cons.prems(1) Some by (simp add: countImport_unfold)
    have S': "\<forall>j. targetOf ?r j = (if j \<in> insert i S then matchOf sep T j else None)"
      using Cons.prems(2) Some tne by (simp add: targetOf_update)
    have e: "edgesInto (matchOf sep T) (i # is) x =
        (if x = t then Suc (edgesInto (matchOf sep T) is x) else edgesInto (matchOf sep T) is x)" for x
      using Some by (auto simp: edgesInto_def)
    note IH = Cons.IH [OF f S']
    have g1: "\<forall>j. targetOf r' j = (if j \<in> S \<union> set (i # is) then matchOf sep T j else None)"
      using IH by simp
    have g2: "\<forall>x. getOr0 c' x = getOr0 c x + edgesInto (matchOf sep T) (i # is) x"
    proof
      fix x
      have "getOr0 c' x = getOr0 ?c x + edgesInto (matchOf sep T) is x" using IH by blast
      then show "getOr0 c' x = getOr0 c x + edgesInto (matchOf sep T) (i # is) x"
        using e [of x] by (simp add: getOr0_update)
    qed
    show ?thesis using g1 g2 by blast
  qed
qed

lemma countGraph_fold:
  "fold (\<lambda>entry acc. fold (countImport sep T) (snd entry) acc) g (r, c) = (r', c') \<Longrightarrow>
   (\<forall>i. targetOf r i = (if i \<in> S then matchOf sep T i else None)) \<Longrightarrow>
   (\<forall>i. targetOf r' i = (if i \<in> S \<union> importedPaths g then matchOf sep T i else None)) \<and>
   (\<forall>t. getOr0 c' t = getOr0 c t + inDegree sep T g t)"
proof (induction g arbitrary: r c S)
  case Nil
  then show ?case by (simp add: importedPaths_def inDegree_def)
next
  case (Cons e g)
  obtain r1 c1 where f1: "fold (countImport sep T) (snd e) (r, c) = (r1, c1)" by force
  have f2: "fold (\<lambda>entry acc. fold (countImport sep T) (snd entry) acc) g (r1, c1) = (r', c')"
    using Cons.prems(1) f1 by simp
  note A = countImport_fold [OF f1 Cons.prems(2)]
  have S1: "\<forall>i. targetOf r1 i = (if i \<in> S \<union> set (snd e) then matchOf sep T i else None)"
    using A by blast
  note B = Cons.IH [OF f2 S1]
  have u: "S \<union> set (snd e) \<union> importedPaths g = S \<union> importedPaths (e # g)"
    by (auto simp: importedPaths_def)
  have t1: "\<forall>i. targetOf r' i = (if i \<in> S \<union> importedPaths (e # g) then matchOf sep T i else None)"
    using B u by simp
  have t2: "\<forall>t. getOr0 c' t = getOr0 c t + inDegree sep T (e # g) t"
  proof
    fix t
    have "getOr0 c' t = getOr0 c1 t + inDegree sep T g t" using B by blast
    moreover have "getOr0 c1 t = getOr0 c t + edgesInto (matchOf sep T) (snd e) t" using A by blast
    ultimately show "getOr0 c' t = getOr0 c t + inDegree sep T (e # g) t"
      by (simp add: inDegree_def)
  qed
  show ?case using t1 t2 by blast
qed

lemma keysOf_update: "keysOf (AList.update k v m) = insert k (keysOf m)"
  by (auto simp: keysOf_def update_keys)

lemma initCount_get:
  "getOr0 (fold (\<lambda>filePath m. AList.update filePath 0 m) T m) t = (if t \<in> set T then 0 else getOr0 m t)"
  by (induction T arbitrary: m) (auto simp: getOr0_update)

lemma initCount_keys:
  "keysOf (fold (\<lambda>filePath m. AList.update filePath 0 m) T m) = keysOf m \<union> set T"
  by (induction T arbitrary: m) (auto simp: keysOf_update)

lemma initCount_distinct:
  "distinct (map fst m) \<Longrightarrow> distinct (map fst (fold (\<lambda>filePath m. AList.update filePath 0 m) T m))"
  by (induction T arbitrary: m) (auto simp: distinct_update)

lemma countImport_keys:
  "set T \<subseteq> keysOf (snd acc) \<Longrightarrow> keysOf (snd (countImport sep T i acc)) = keysOf (snd acc)"
  by (cases acc) (auto simp: countImport_unfold keysOf_update split: option.splits dest: matchOf_mem)

lemma countImport_fold_keys:
  "set T \<subseteq> keysOf (snd acc) \<Longrightarrow> keysOf (snd (fold (countImport sep T) is acc)) = keysOf (snd acc)"
  by (induction "is" arbitrary: acc) (simp_all add: countImport_keys)

lemma countGraph_fold_keys:
  "set T \<subseteq> keysOf (snd acc) \<Longrightarrow>
   keysOf (snd (fold (\<lambda>entry acc. fold (countImport sep T) (snd entry) acc) g acc)) = keysOf (snd acc)"
  by (induction g arbitrary: acc) (simp_all add: countImport_fold_keys)

lemma distinct_countImport:
  "distinct (map fst (snd acc)) \<Longrightarrow> distinct (map fst (snd (countImport sep T i acc)))"
  by (cases acc) (auto simp: countImport_unfold distinct_update split: option.splits)

lemma distinct_countImport_fold:
  "distinct (map fst (snd acc)) \<Longrightarrow> distinct (map fst (snd (fold (countImport sep T) is acc)))"
  by (induction "is" arbitrary: acc) (auto simp: distinct_countImport)

lemma distinct_countGraph_fold:
  "distinct (map fst (snd acc)) \<Longrightarrow>
   distinct (map fst (snd (fold (\<lambda>entry acc. fold (countImport sep T) (snd entry) acc) g acc)))"
  by (induction g arbitrary: acc) (auto simp: distinct_countImport_fold)

lemma distinct_countIncoming: "distinct (map fst (snd (countIncoming sep T g)))"
  unfolding countIncoming_def
  by (rule distinct_countGraph_fold) (simp add: initCount_distinct)

lemma keys_countIncoming: "keysOf (snd (countIncoming sep T g)) = set T"
proof -
  let ?c0 = "fold (\<lambda>filePath m. AList.update filePath (0::nat) m) T []"
  have k0: "keysOf ?c0 = set T" using initCount_keys [of T "[]"] by (simp add: keysOf_def)
  then have "set T \<subseteq> keysOf (snd ([] :: (string \<times> string) list, ?c0))" by simp
  from countGraph_fold_keys [OF this] show ?thesis
    unfolding countIncoming_def using k0 by simp
qed

lemma countIncoming_props:
  assumes "countIncoming sep T g = (r, c)"
  shows "\<forall>i. targetOf r i = (if i \<in> importedPaths g then matchOf sep T i else None)"
    and "\<forall>t. getOr0 c t = inDegree sep T g t"
proof -
  let ?c0 = "fold (\<lambda>filePath m. AList.update filePath (0::nat) m) T []"
  have f: "fold (\<lambda>entry acc. fold (countImport sep T) (snd entry) acc) g ([], ?c0) = (r, c)"
    using assms by (simp add: countIncoming_def)
  have S0: "\<forall>i. targetOf [] i = (if i \<in> {} then matchOf sep T i else None)"
    by (simp add: targetOf_def truthy_def)
  note A = countGraph_fold [OF f S0]
  have c0: "getOr0 ?c0 t = 0" for t
    by (simp add: initCount_get) (simp add: getOr0_def)
  show "\<forall>i. targetOf r i = (if i \<in> importedPaths g then matchOf sep T i else None)"
    using A by simp
  show "\<forall>t. getOr0 c t = inDegree sep T g t" using A c0 by simp
qed

lemma pendingInto_inDegree:
  assumes "\<forall>i. tgt i = (if i \<in> importedPaths g then matchOf sep T i else None)"
  shows "pendingInto tgt g (\<lambda>x. False) t = inDegree sep T g t"
proof -
  have "edgesInto tgt (snd e) t = edgesInto (matchOf sep T) (snd e) t" if "e \<in> set g" for e
    unfolding edgesInto_def
    by (intro arg_cong [where f = length] filter_cong refl) (use assms that in \<open>auto simp: importedPaths_def\<close>)
  then show ?thesis
    unfolding pendingInto_def inDegree_def
    by (intro arg_cong [where f = sum_list] map_cong) auto
qed

subsection \<open>The start of the traversal, and its depths\<close>

lemma update_new: "k \<notin> keysOf m \<Longrightarrow> AList.update k v m = m @ [(k, v)]"
  by (induction m) (auto simp: keysOf_def)

lemma seedEntry_fold:
  "distinct (map fst es) \<Longrightarrow> keysOf (depths st) \<inter> keysOf es = {} \<Longrightarrow>
   fold seedEntry es st =
     st\<lparr>queue := queue st @ zeroKeys es,
        depths := depths st @ map (\<lambda>p. (p, 0)) (zeroKeys es)\<rparr>"
proof (induction es arbitrary: st)
  case Nil
  then show ?case by (simp add: zeroKeys_def)
next
  case (Cons e es)
  obtain k c where e: "e = (k, c)" by (cases e)
  show ?case
  proof (cases "c = 0")
    case True
    let ?st = "st\<lparr>queue := queue st @ [k], depths := depths st @ [(k, 0)]\<rparr>"
    have knew: "k \<notin> keysOf (depths st)" using Cons.prems(2) e by (auto simp: keysOf_def)
    have s: "seedEntry e st = ?st" using e True knew by (simp add: seedEntry_def update_new)
    have d: "keysOf (depths ?st) \<inter> keysOf es = {}"
      using Cons.prems e by (auto simp: keysOf_def)
    have "fold seedEntry es ?st =
        ?st\<lparr>queue := queue ?st @ zeroKeys es, depths := depths ?st @ map (\<lambda>p. (p, 0)) (zeroKeys es)\<rparr>"
      using Cons.IH [OF _ d] Cons.prems(1) by simp
    then show ?thesis using s e True by (simp add: zeroKeys_def)
  next
    case False
    then have s: "seedEntry e st = st" using e by (simp add: seedEntry_def)
    have d: "keysOf (depths st) \<inter> keysOf es = {}" using Cons.prems by (auto simp: keysOf_def)
    show ?thesis using Cons.IH [OF _ d] Cons.prems(1) s e False by (simp add: zeroKeys_def)
  qed
qed

lemma seedQueue_eq:
  "distinct (map fst counts) \<Longrightarrow>
   seedQueue counts =
     \<lparr>queue = zeroKeys counts, incomingCount = counts, depths = map (\<lambda>p. (p, 0)) (zeroKeys counts)\<rparr>"
  unfolding seedQueue_def
  by (subst seedEntry_fold) (simp_all add: keysOf_def)

lemma zeroKeys_set:
  "distinct (map fst counts) \<Longrightarrow> set (zeroKeys counts) = {t \<in> keysOf counts. getOr0 counts t = 0}"
proof -
  assume d: "distinct (map fst counts)"
  have "(t, c) \<in> set counts \<Longrightarrow> getOr0 counts t = c" for t c
    using d by (simp add: getOr0_def)
  moreover have "t \<in> keysOf counts \<Longrightarrow> (t, getOr0 counts t) \<in> set counts" for t
    using d by (auto simp: keysOf_def getOr0_def)
  ultimately show ?thesis
    unfolding zeroKeys_def by (force simp: keysOf_def)
qed

lemma zeroKeys_distinct: "distinct (map fst counts) \<Longrightarrow> distinct (zeroKeys counts)"
  unfolding zeroKeys_def by (simp add: distinct_map_filter)

lemma kahnStart_eq:
  "kahnStart sep T g =
     \<lparr>queue = zeroKeys (snd (countIncoming sep T g)),
      incomingCount = snd (countIncoming sep T g),
      depths = map (\<lambda>p. (p, 0)) (zeroKeys (snd (countIncoming sep T g)))\<rparr>"
  unfolding kahnStart_def by (rule seedQueue_eq) (rule distinct_countIncoming)

lemma kahnStart_count: "getOr0 (incomingCount (kahnStart sep T g)) t = inDegree sep T g t"
  using countIncoming_props(2) [of sep T g "fst (countIncoming sep T g)" "snd (countIncoming sep T g)"]
  by (simp add: kahnStart_eq)

lemma kahnStart_queue: "set (queue (kahnStart sep T g)) = {t \<in> set T. inDegree sep T g t = 0}"
proof -
  have "set (queue (kahnStart sep T g)) =
      {t \<in> keysOf (snd (countIncoming sep T g)). getOr0 (snd (countIncoming sep T g)) t = 0}"
    by (simp add: kahnStart_eq zeroKeys_set distinct_countIncoming)
  also have "\<dots> = {t \<in> set T. inDegree sep T g t = 0}"
    using kahnStart_count [of sep T g] by (simp add: keys_countIncoming kahnStart_eq)
  finally show ?thesis .
qed

lemma map_of_zero_depths:
  "map_of (map (\<lambda>p. (p, 0::nat)) ks) t = (if t \<in> set ks then Some 0 else None)"
  by (induction ks) auto

lemma kahnStart_depths:
  "map_of (depths (kahnStart sep T g)) t =
     (if t \<in> set T \<and> inDegree sep T g t = 0 then Some 0 else None)"
proof -
  have "map_of (depths (kahnStart sep T g)) t =
      (if t \<in> set (queue (kahnStart sep T g)) then Some 0 else None)"
    by (simp add: kahnStart_eq map_of_zero_depths)
  then show ?thesis by (simp add: kahnStart_queue)
qed

lemma targetOf_countIncoming:
  "targetOf (fst (countIncoming sep T g)) i = (if i \<in> importedPaths g then matchOf sep T i else None)"
  using countIncoming_props(1) [of sep T g "fst (countIncoming sep T g)" "snd (countIncoming sep T g)"]
  by simp

lemma targetOf_range:
  "targetOf (fst (countIncoming sep T g)) i = Some t \<Longrightarrow> t \<in> set T"
  by (auto simp: targetOf_countIncoming split: if_splits dest: matchOf_mem)

lemma kahnInv_start:
  "kahnInv (targetOf (fst (countIncoming sep T g))) g T (kahnStart sep T g)"
proof -
  let ?st = "kahnStart sep T g" and ?tgt = "targetOf (fst (countIncoming sep T g))"
  have q: "set (queue ?st) = {t \<in> set T. inDegree sep T g t = 0}" by (rule kahnStart_queue)
  have nd: "\<not> isDone T ?st f" for f
    using q kahnStart_count [of sep T g f] by (auto simp: isDone_def)
  have "pendingInto ?tgt g (isDone T ?st) t = pendingInto ?tgt g (\<lambda>x. False) t" for t
    by (rule pendingInto_cong) (simp add: nd)
  also have "pendingInto ?tgt g (\<lambda>x. False) t = inDegree sep T g t" for t
    by (rule pendingInto_inDegree) (simp add: targetOf_countIncoming)
  finally have c: "getOr0 (incomingCount ?st) t = pendingInto ?tgt g (isDone T ?st) t" for t
    by (simp add: kahnStart_count)
  have d: "distinct (queue ?st)"
    by (simp add: kahnStart_eq zeroKeys_distinct distinct_countIncoming)
  show ?thesis
    unfolding kahnInv_def using d q c kahnStart_count [of sep T g] by auto
qed

text \<open>Totality of the traversal, with an invariant carried along.\<close>

lemma kahnDrained_rule:
  assumes dg: "distinct (map fst g)"
    and init: "I (kahnStart sep T g)"
    and step: "\<And>s. I s \<Longrightarrow> queue s \<noteq> [] \<Longrightarrow> I (processNext g (fst (countIncoming sep T g)) s)"
  shows "\<exists>st. kahnDrained sep T g = Some st \<and> queue st = [] \<and> I st"
proof -
  have "\<exists>st'. drainQueue g (fst (countIncoming sep T g)) (kahnStart sep T g) = Some st' \<and>
          queue st' = [] \<and> I st' \<and> kahnInv (targetOf (fst (countIncoming sep T g))) g T st'"
    by (rule drainQueue_rule
          [where tgt = "targetOf (fst (countIncoming sep T g))" and T = T and I = I,
           OF dg refl _ _ kahnInv_start init])
       (use step targetOf_range in blast)+
  then show ?thesis by (auto simp: kahnDrained_def)
qed

lemma fold_relaxImport_rule:
  "(\<And>i s. i \<in> set is \<Longrightarrow> Q s \<Longrightarrow> Q (relaxImport r d i s)) \<Longrightarrow> Q st \<Longrightarrow>
   Q (fold (relaxImport r d) is st)"
  by (induction "is" arbitrary: st) auto

lemma processNext_rule:
  assumes Q: "Q st"
    and pop: "\<And>f rest. queue st = f # rest \<Longrightarrow> Q (st\<lparr>queue := rest\<rparr>)"
    and relax: "\<And>f rest i s. queue st = f # rest \<Longrightarrow> i \<in> set (importsOf g f) \<Longrightarrow> Q s \<Longrightarrow>
                  Q (relaxImport r (getOr0 (depths st) f) i s)"
  shows "Q (processNext g r st)"
proof (cases "queue st")
  case Nil
  then show ?thesis using Q by (simp add: processNext_def)
next
  case (Cons f rest)
  show ?thesis
    unfolding processNext_unfold [OF Cons]
    by (rule fold_relaxImport_rule) (use relax [OF Cons] pop [OF Cons] in auto)
qed

lemma importsOf_mem:
  assumes "i \<in> set (importsOf g f)"
  shows "(f, importsOf g f) \<in> set g \<and> i \<in> importedPaths g"
proof -
  obtain imps where m: "map_of g f = Some imps"
    using assms by (cases "map_of g f") (auto simp: importsOf_def)
  then have e: "(f, imps) \<in> set g" by (rule map_of_SomeD)
  have "importsOf g f = imps" using m by (simp add: importsOf_def)
  then show ?thesis using e assms by (force simp: importedPaths_def)
qed

lemma inDegree_pos:
  assumes "(f, imps) \<in> set g" and "i \<in> set imps" and "matchOf sep T i = Some t"
  shows "0 < inDegree sep T g t"
proof -
  have "0 < edgesInto (matchOf sep T) imps t"
    using assms(2,3) by (auto simp: edgesInto_def filter_empty_conv)
  moreover have "edgesInto (matchOf sep T) imps t \<le> inDegree sep T g t"
    unfolding inDegree_def
    using member_le_sum_list
            [of "edgesInto (matchOf sep T) imps t"
                "map (\<lambda>entry. edgesInto (matchOf sep T) (snd entry) t) g"] assms(1)
    by force
  ultimately show ?thesis by simp
qed

lemma inDegree_matchedIncoming:
  "inDegree sep T g t = length (matchedIncoming sep T g t)"
proof -
  have "length (filter P (concat (map F g))) = sum_list (map (\<lambda>e. length (filter P (F e))) g)"
    for P :: "string \<times> string \<Rightarrow> bool" and F :: "string \<times> string list \<Rightarrow> (string \<times> string) list"
    by (induction g) auto
  moreover have "length (filter (\<lambda>edge. matchOf sep T (snd edge) = Some t) (map (Pair (fst e)) (snd e)))
      = edgesInto (matchOf sep T) (snd e) t" for e :: "string \<times> string list"
    by (simp add: edgesInto_def filter_map comp_def)
  ultimately show ?thesis by (simp add: inDegree_def matchedIncoming_def)
qed

lemma matchedIncoming_mem:
  "(f, i) \<in> set (matchedIncoming sep T g t) \<longleftrightarrow>
     (\<exists>imports. (f, imports) \<in> set g \<and> i \<in> set imports) \<and> matchOf sep T i = Some t"
proof -
  have "(f, i) \<in> set (concat (map (\<lambda>entry. map (Pair (fst entry)) (snd entry)) g)) \<longleftrightarrow>
        (\<exists>imps. (f, imps) \<in> set g \<and> i \<in> set imps)"
    by (induction g) auto
  then show ?thesis by (auto simp: matchedIncoming_def)
qed

lemma depthInv_start: "depthInv sep T g (kahnStart sep T g)"
  by (auto simp: depthInv_def kahnStart_depths)

lemma relaxImport_cases:
  assumes "i \<in> set (importsOf g f)"
  obtains (skip) "relaxImport (fst (countIncoming sep T g)) d i s = s"
  | (hit) t where "matchOf sep T i = Some t" "targetOf (fst (countIncoming sep T g)) i = Some t"
      "0 < inDegree sep T g t" "(f, i) \<in> set (matchedIncoming sep T g t)"
proof (cases "targetOf (fst (countIncoming sep T g)) i")
  case None
  then show ?thesis using skip by (simp add: relaxImport_skip)
next
  case (Some t)
  have mem: "(f, importsOf g f) \<in> set g" "i \<in> importedPaths g"
    using importsOf_mem [OF assms] by simp_all
  then have m: "matchOf sep T i = Some t" using Some by (simp add: targetOf_countIncoming)
  have "0 < inDegree sep T g t" by (rule inDegree_pos [OF mem(1) assms m])
  moreover have "(f, i) \<in> set (matchedIncoming sep T g t)"
    using mem(1) assms m by (auto simp: matchedIncoming_mem)
  ultimately show ?thesis using hit m Some by blast
qed

lemma depthInv_step:
  assumes "depthInv sep T g st"
  shows "depthInv sep T g (processNext g (fst (countIncoming sep T g)) st)"
proof (rule processNext_rule [where Q = "depthInv sep T g"])
  show "depthInv sep T g st" by (rule assms)
next
  fix f rest assume "queue st = f # rest"
  show "depthInv sep T g (st\<lparr>queue := rest\<rparr>)" using assms by (simp add: depthInv_def)
next
  fix f rest i s
  assume i: "i \<in> set (importsOf g f)" and s: "depthInv sep T g s"
  let ?d = "getOr0 (depths st) f"
  from i show "depthInv sep T g (relaxImport (fst (countIncoming sep T g)) ?d i s)"
  proof (cases rule: relaxImport_cases [where sep = sep and T = T and d = ?d and s = s])
    case skip
    then show ?thesis using s by simp
  next
    case (hit t)
    have "map_of (depths (relaxImport (fst (countIncoming sep T g)) ?d i s)) =
        (map_of (depths s))(t \<mapsto> max (getOr0 (depths s) t) (?d + 1))"
      by (rule relaxImport_depths [OF hit(2)])
    then show ?thesis using s hit(3) by (auto simp: depthInv_def)
  qed
qed

lemma depthInv_iter:
  "depthInv sep T g ((processNext g (fst (countIncoming sep T g)) ^^ n) (kahnStart sep T g))"
  by (induction n) (simp_all add: depthInv_start depthInv_step)

lemma untouched_step:
  assumes u: "untouched p st" and only: "\<forall>e\<in>set (matchedIncoming sep T g p). fst e = p"
  shows "untouched p (processNext g (fst (countIncoming sep T g)) st)"
proof (rule processNext_rule [where Q = "\<lambda>s. untouched p s \<and> (\<forall>f rest. queue st = f # rest \<longrightarrow> f \<noteq> p)", THEN conjunct1])
  show "untouched p st \<and> (\<forall>f rest. queue st = f # rest \<longrightarrow> f \<noteq> p)"
    using u by (auto simp: untouched_def)
next
  fix f rest assume "queue st = f # rest"
  then show "untouched p (st\<lparr>queue := rest\<rparr>) \<and> (\<forall>f rest. queue st = f # rest \<longrightarrow> f \<noteq> p)"
    using u by (auto simp: untouched_def)
next
  fix f rest i s
  assume q: "queue st = f # rest" and i: "i \<in> set (importsOf g f)"
    and s: "untouched p s \<and> (\<forall>f rest. queue st = f # rest \<longrightarrow> f \<noteq> p)"
  let ?d = "getOr0 (depths st) f"
  have fp: "f \<noteq> p" using s q by blast
  from i show "untouched p (relaxImport (fst (countIncoming sep T g)) ?d i s) \<and>
      (\<forall>f rest. queue st = f # rest \<longrightarrow> f \<noteq> p)"
  proof (cases rule: relaxImport_cases [where sep = sep and T = T and d = ?d and s = s])
    case skip
    then show ?thesis using s by simp
  next
    case (hit t)
    have tp: "t \<noteq> p" using hit(4) only fp by auto
    have "map_of (depths (relaxImport (fst (countIncoming sep T g)) ?d i s)) =
        (map_of (depths s))(t \<mapsto> max (getOr0 (depths s) t) (?d + 1))"
      by (rule relaxImport_depths [OF hit(2)])
    moreover have "set (queue (relaxImport (fst (countIncoming sep T g)) ?d i s)) \<subseteq> insert t (set (queue s))"
      by (auto simp: relaxImport_queue [OF hit(2)])
    ultimately show ?thesis using s tp by (auto simp: untouched_def)
  qed
qed

lemma assignRemaining_map:
  "map_of (assignRemaining T ds) t =
     (case map_of ds t of
        Some d \<Rightarrow> Some d
      | None \<Rightarrow> if t \<in> set T then Some (maxDepthOf ds + 1) else None)"
proof -
  have "map_of (fold (\<lambda>filePath d. if map_of d filePath = None then AList.update filePath v d else d) T ds) t =
     (case map_of ds t of Some d \<Rightarrow> Some d | None \<Rightarrow> if t \<in> set T then Some v else None)" for v :: nat
    by (induction T arbitrary: ds) (auto simp: update_conv' split: option.splits)
  then show ?thesis by (simp add: assignRemaining_def Let_def)
qed

lemma maxDepthOf_Max: "maxDepthOf ds = Max (insert 0 (snd ` set ds))"
proof -
  have "fold max xs (a::nat) = Max (insert a (set xs))" for xs a
    using Max.set_eq_fold [of a xs] by simp
  then show ?thesis by (simp add: maxDepthOf_def)
qed

lemma calculateImportScores_eq:
  "kahnDrained (pathSep h) (tabPathSet tabs) graph = Some st \<Longrightarrow>
   calculateImportScores h graph tabs = Some (assignRemaining (tabPathSet tabs) (depths st))"
  by (simp add: calculateImportScores_def Let_def)

subsection \<open>Depth zero\<close>

text \<open>
  C2, as the code has it. For a graph whose keys are distinct (the property names of an object) and an open
  file path \<open>p\<close>: the score calculator returns, \<open>p\<close> gets a depth, and the depth is 0
  exactly when \<open>p\<close> has no matched incoming edge, that is, no resolved import of a
  file of the graph is matched to \<open>p\<close> (an import of \<open>p\<close> itself counts like any
  other). Such a file is in the queue when the traversal starts and has depth 0 after
  any number of iterations of the loop.
\<close>

theorem depth_zero_iff_no_matched_incoming:
  assumes dg: "distinct (map fst graph)" and p: "p \<in> set (tabPathSet tabs)"
  shows "\<exists>scores. calculateImportScores h graph tabs = Some scores \<and>
           (\<exists>d. map_of scores p = Some d) \<and>
           (map_of scores p = Some 0 \<longleftrightarrow>
              matchedIncoming (pathSep h) (tabPathSet tabs) graph p = []) \<and>
           (matchedIncoming (pathSep h) (tabPathSet tabs) graph p = [] \<longrightarrow>
              p \<in> set (queue (kahnStart (pathSep h) (tabPathSet tabs) graph)) \<and>
              (\<forall>n. map_of (depths ((processNext graph
                        (fst (countIncoming (pathSep h) (tabPathSet tabs) graph)) ^^ n)
                      (kahnStart (pathSep h) (tabPathSet tabs) graph))) p = Some 0))"
proof -
  let ?sep = "pathSep h" and ?T = "tabPathSet tabs"
  obtain st where st: "kahnDrained ?sep ?T graph = Some st" and inv: "depthInv ?sep ?T graph st"
    using kahnDrained_rule [where I = "depthInv ?sep ?T graph", OF dg depthInv_start depthInv_step]
    by blast
  let ?scores = "assignRemaining ?T (depths st)"
  have sc: "calculateImportScores h graph tabs = Some ?scores" by (rule calculateImportScores_eq [OF st])
  have deg: "inDegree ?sep ?T graph p = 0 \<longleftrightarrow> matchedIncoming ?sep ?T graph p = []"
    by (simp add: inDegree_matchedIncoming)
  have some: "\<exists>d. map_of ?scores p = Some d"
    using p by (simp add: assignRemaining_map split: option.splits)
  have zero: "map_of ?scores p = Some 0 \<longleftrightarrow> inDegree ?sep ?T graph p = 0"
  proof (cases "inDegree ?sep ?T graph p = 0")
    case True
    then have "map_of (depths st) p = Some 0" using inv p by (simp add: depthInv_def)
    then show ?thesis using True by (simp add: assignRemaining_map)
  next
    case False
    then have "map_of (depths st) p \<noteq> Some 0" using inv by (simp add: depthInv_def)
    then show ?thesis using False p by (auto simp: assignRemaining_map split: option.splits)
  qed
  have seeded: "p \<in> set (queue (kahnStart ?sep ?T graph))" if "inDegree ?sep ?T graph p = 0"
    using that p by (simp add: kahnStart_queue)
  have kept: "map_of (depths ((processNext graph (fst (countIncoming ?sep ?T graph)) ^^ n)
                  (kahnStart ?sep ?T graph))) p = Some 0" if "inDegree ?sep ?T graph p = 0" for n
    using depthInv_iter [of ?sep ?T graph n] that p by (simp add: depthInv_def)
  show ?thesis using sc some zero deg seeded kept by auto
qed

theorem depth_zero_iff_no_matched_incoming_witness:
  "distinct (map fst [(''/p/a'', [''/p/b''])]) \<and>
   ''/p/a'' \<in> set (tabPathSet [fileTab ''/p/a'', fileTab ''/p/b'']) \<and>
   ''/p/b'' \<in> set (tabPathSet [fileTab ''/p/a'', fileTab ''/p/b'']) \<and>
   matchedIncoming CHR ''/'' [''/p/a'', ''/p/b''] [(''/p/a'', [''/p/b''])] ''/p/a'' = [] \<and>
   matchedIncoming CHR ''/'' [''/p/a'', ''/p/b''] [(''/p/a'', [''/p/b''])] ''/p/b'' = [(''/p/a'', ''/p/b'')] \<and>
   calculateImportScores (exampleHost [] [] [] []) [(''/p/a'', [''/p/b''])]
       [fileTab ''/p/a'', fileTab ''/p/b'']
     = Some [(''/p/a'', 0), (''/p/b'', 1)]"
proof -
  let ?h = "exampleHost [] [] [] []" and ?g = "[(''/p/a'', [''/p/b''])]"
  let ?tabs = "[fileTab ''/p/a'', fileTab ''/p/b'']"
  have sep: "pathSep ?h = CHR ''/''" by (simp add: exampleHost_def)
  have T: "tabPathSet ?tabs = [''/p/a'', ''/p/b'']" by code_simp
  have dg: "distinct (map fst ?g)" by simp
  have pa: "''/p/a'' \<in> set (tabPathSet ?tabs)" and pb: "''/p/b'' \<in> set (tabPathSet ?tabs)"
    by (simp_all add: T)
  have ma: "matchedIncoming CHR ''/'' [''/p/a'', ''/p/b''] ?g ''/p/a'' = []" by code_simp
  have mb: "matchedIncoming CHR ''/'' [''/p/a'', ''/p/b''] ?g ''/p/b'' = [(''/p/a'', ''/p/b'')]"
    by code_simp
  have sc: "calculateImportScores ?h ?g ?tabs = Some [(''/p/a'', 0), (''/p/b'', 1)]" by code_simp
  have "map_of [(''/p/a'', 0::nat), (''/p/b'', 1)] ''/p/a'' = Some 0"
    using depth_zero_iff_no_matched_incoming [OF dg pa, of ?h] ma sc by (auto simp: sep T)
  moreover have "map_of [(''/p/a'', 0::nat), (''/p/b'', 1)] ''/p/b'' \<noteq> Some 0"
    using depth_zero_iff_no_matched_incoming [OF dg pb, of ?h] mb sc by (auto simp: sep T)
  ultimately show ?thesis using dg pa pb ma mb sc by blast
qed

text \<open>
  A file that requires only itself is the target of no other file's import, and its
  depth is not 0: with \<^verbatim>\<open>s.js\<close> requiring itself and \<^verbatim>\<open>t.js\<close> requiring nothing, the
  only matched incoming edge of \<^verbatim>\<open>s.js\<close> is its own, \<^verbatim>\<open>s.js\<close> is not seeded, and it
  ends with depth 1.
\<close>

theorem self_importing_file_has_depth_one:
  "importGraph
     (buildImportGraph
        (exampleHost [(''/p/s.js'', ''require(\"./s\")''), (''/p/t.js'', ''let x'')]
           [(''require(\"./s\")'', [''./s''])] [] [])
        [fileTab ''/p/s.js'', fileTab ''/p/t.js''] freshStrategy)
     = [(''/p/s.js'', [''/p/s.js'']), (''/p/t.js'', [])] \<and>
   matchedIncoming CHR ''/'' [''/p/s.js'', ''/p/t.js'']
       [(''/p/s.js'', [''/p/s.js'']), (''/p/t.js'', [])] ''/p/s.js''
     = [(''/p/s.js'', ''/p/s.js'')] \<and>
   filter (\<lambda>e. fst e \<noteq> ''/p/s.js'')
       (matchedIncoming CHR ''/'' [''/p/s.js'', ''/p/t.js'']
          [(''/p/s.js'', [''/p/s.js'']), (''/p/t.js'', [])] ''/p/s.js'')
     = [] \<and>
   queue (kahnStart CHR ''/'' [''/p/s.js'', ''/p/t.js'']
       [(''/p/s.js'', [''/p/s.js'']), (''/p/t.js'', [])]) = [''/p/t.js''] \<and>
   calculateImportScores
       (exampleHost [(''/p/s.js'', ''require(\"./s\")''), (''/p/t.js'', ''let x'')]
          [(''require(\"./s\")'', [''./s''])] [] [])
       [(''/p/s.js'', [''/p/s.js'']), (''/p/t.js'', [])]
       [fileTab ''/p/s.js'', fileTab ''/p/t.js'']
     = Some [(''/p/t.js'', 0), (''/p/s.js'', 1)]"
  by code_simp
subsection \<open>The course of the traversal\<close>

lemma processNext_empty: "queue st = [] \<Longrightarrow> processNext g r st = st"
  by (simp add: processNext_def)

lemma processNext_done:
  assumes inv: "kahnInv tgt g T st" and q: "queue st = f # rest" and dg: "distinct (map fst g)"
    and tgt: "tgt = targetOf r" and range: "\<And>i t. tgt i = Some t \<Longrightarrow> t \<in> set T"
  shows "isDone T (processNext g r st) x = (isDone T st x \<or> x = f)"
proof -
  have J0: "innerInv tgt g T st f (importsOf g f) (st\<lparr>queue := rest\<rparr>)"
    by (rule innerInv_start [OF inv q dg])
  have J: "innerInv tgt g T st f [] (processNext g r st)"
    unfolding processNext_unfold [OF q]
    using innerInv_fold [OF tgt _ J0] range by blast
  then show ?thesis unfolding innerInv_def by blast
qed

lemma fold_relax_dom:
  "dom (map_of (depths (fold (relaxImport r d) is st))) =
     dom (map_of (depths st)) \<union> {t. \<exists>i\<in>set is. targetOf r i = Some t}"
proof (induction "is" arbitrary: st)
  case Nil
  then show ?case by simp
next
  case (Cons i "is")
  have one: "dom (map_of (depths (relaxImport r d i st))) =
      dom (map_of (depths st)) \<union> {t. targetOf r i = Some t}"
  proof (cases "targetOf r i")
    case None
    then show ?thesis by (simp add: relaxImport_skip)
  next
    case (Some t)
    then show ?thesis by (auto simp: relaxImport_depths [OF Some])
  qed
  show ?case using Cons [of "relaxImport r d i st"] one by auto
qed

lemma fold_relax_queue:
  "set (queue (fold (relaxImport r d) is st)) \<subseteq>
     set (queue st) \<union> {t. \<exists>i\<in>set is. targetOf r i = Some t}"
proof (induction "is" arbitrary: st)
  case Nil
  then show ?case by simp
next
  case (Cons i "is")
  have one: "set (queue (relaxImport r d i st)) \<subseteq> set (queue st) \<union> {t. targetOf r i = Some t}"
  proof (cases "targetOf r i")
    case None
    then show ?thesis by (simp add: relaxImport_skip)
  next
    case (Some t)
    then show ?thesis by (auto simp: relaxImport_queue [OF Some])
  qed
  show ?case using Cons [of "relaxImport r d i st"] one by auto
qed

lemma processNext_dom:
  "queue st = f # rest \<Longrightarrow>
   dom (map_of (depths (processNext g r st))) =
     dom (map_of (depths st)) \<union> {t. \<exists>i\<in>set (importsOf g f). targetOf r i = Some t}"
  by (simp add: processNext_unfold fold_relax_dom)

lemma processNext_queue:
  "queue st = f # rest \<Longrightarrow>
   set (queue (processNext g r st)) \<subseteq>
     set rest \<union> {t. \<exists>i\<in>set (importsOf g f). targetOf r i = Some t}"
  using fold_relax_queue [of r "getOr0 (depths st) f" "importsOf g f" "st\<lparr>queue := rest\<rparr>"]
  by (simp add: processNext_unfold)

lemma stateAfter_0: "stateAfter sep T g 0 = kahnStart sep T g"
  by (simp add: stateAfter_def)

lemma stateAfter_Suc:
  "stateAfter sep T g (Suc n) = processNext g (fst (countIncoming sep T g)) (stateAfter sep T g n)"
  by (simp add: stateAfter_def)

lemma dequeuedIn_iff: "dequeuedIn sep T g n f \<longleftrightarrow> (\<exists>rest. queue (stateAfter sep T g n) = f # rest)"
  by (auto simp: dequeuedIn_def split: list.splits)

lemma stateAfter_inv:
  assumes dg: "distinct (map fst g)"
  shows "kahnInv (targetOf (fst (countIncoming sep T g))) g T (stateAfter sep T g n)"
proof (induction n)
  case 0
  then show ?case by (simp add: stateAfter_0 kahnInv_start)
next
  case (Suc n)
  show ?case
  proof (cases "queue (stateAfter sep T g n) = []")
    case True
    then show ?thesis using Suc by (simp add: stateAfter_Suc processNext_empty)
  next
    case False
    show ?thesis
      unfolding stateAfter_Suc
      by (rule processNext_inv [OF Suc False dg refl targetOf_range, THEN conjunct1])
  qed
qed

lemma stateAfter_done:
  assumes dg: "distinct (map fst g)"
  shows "isDone T (stateAfter sep T g n) x \<longleftrightarrow> (\<exists>m<n. dequeuedIn sep T g m x)"
proof (induction n)
  case 0
  have "set (queue (kahnStart sep T g)) = {t \<in> set T. inDegree sep T g t = 0}"
    by (rule kahnStart_queue)
  then have "\<not> isDone T (kahnStart sep T g) x"
    using kahnStart_count [of sep T g x] by (auto simp: isDone_def)
  then show ?case by (simp add: stateAfter_0)
next
  case (Suc n)
  show ?case
  proof (cases "queue (stateAfter sep T g n)")
    case Nil
    then have "\<not> dequeuedIn sep T g n x" by (simp add: dequeuedIn_def)
    then show ?thesis using Suc Nil
      by (auto simp: stateAfter_Suc processNext_empty less_Suc_eq)
  next
    case (Cons f rest)
    have d: "isDone T (stateAfter sep T g (Suc n)) x = (isDone T (stateAfter sep T g n) x \<or> x = f)"
      unfolding stateAfter_Suc
      by (rule processNext_done [OF stateAfter_inv [OF dg] Cons dg refl targetOf_range])
    have "dequeuedIn sep T g n x \<longleftrightarrow> x = f" using Cons by (auto simp: dequeuedIn_def)
    then show ?thesis using d Suc by (auto simp: less_Suc_eq)
  qed
qed

lemma fedBy_targetOf:
  "(\<exists>i\<in>set (importsOf g f). targetOf (fst (countIncoming sep T g)) i = Some t) \<longleftrightarrow> fedBy sep T g f t"
proof -
  have "targetOf (fst (countIncoming sep T g)) i = matchOf sep T i" if "i \<in> set (importsOf g f)" for i
    using importsOf_mem [OF that] by (simp add: targetOf_countIncoming)
  then show ?thesis unfolding fedBy_def by auto
qed

lemma stateAfter_dom:
  "dom (map_of (depths (stateAfter sep T g n))) =
     set (queue (kahnStart sep T g)) \<union>
     {t. \<exists>m<n. \<exists>f. dequeuedIn sep T g m f \<and> fedBy sep T g f t}"
proof (induction n)
  case 0
  have "dom (map_of (depths (kahnStart sep T g))) = set (queue (kahnStart sep T g))"
    by (auto simp: kahnStart_eq map_of_zero_depths split: if_splits)
  then show ?case by (simp add: stateAfter_0)
next
  case (Suc n)
  show ?case
  proof (cases "queue (stateAfter sep T g n)")
    case Nil
    then have "\<not> dequeuedIn sep T g n f" for f by (simp add: dequeuedIn_def)
    then have "{t. \<exists>m<Suc n. \<exists>f. dequeuedIn sep T g m f \<and> fedBy sep T g f t} =
        {t. \<exists>m<n. \<exists>f. dequeuedIn sep T g m f \<and> fedBy sep T g f t}"
      by (auto simp: less_Suc_eq)
    then show ?thesis using Suc Nil by (simp add: stateAfter_Suc processNext_empty)
  next
    case (Cons f rest)
    have dq: "dequeuedIn sep T g n x \<longleftrightarrow> x = f" for x using Cons by (auto simp: dequeuedIn_def)
    have "dom (map_of (depths (stateAfter sep T g (Suc n)))) =
        dom (map_of (depths (stateAfter sep T g n))) \<union> {t. fedBy sep T g f t}"
      unfolding stateAfter_Suc processNext_dom [OF Cons] by (simp add: fedBy_targetOf)
    also have "\<dots> = set (queue (kahnStart sep T g)) \<union>
        {t. \<exists>m<Suc n. \<exists>f. dequeuedIn sep T g m f \<and> fedBy sep T g f t}"
      using Suc dq by (auto simp: less_Suc_eq)
    finally show ?thesis .
  qed
qed

lemma stateAfter_queue_dom:
  "set (queue (stateAfter sep T g n)) \<subseteq> dom (map_of (depths (stateAfter sep T g n)))"
proof (induction n)
  case 0
  show ?case by (auto simp: stateAfter_0 kahnStart_eq map_of_zero_depths)
next
  case (Suc n)
  show ?case
  proof (cases "queue (stateAfter sep T g n)")
    case Nil
    then show ?thesis using Suc by (simp add: stateAfter_Suc processNext_empty)
  next
    case (Cons f rest)
    let ?r = "fst (countIncoming sep T g)"
    have "set (queue (stateAfter sep T g (Suc n))) \<subseteq>
        set rest \<union> {t. \<exists>i\<in>set (importsOf g f). targetOf ?r i = Some t}"
      unfolding stateAfter_Suc by (rule processNext_queue [OF Cons])
    moreover have "dom (map_of (depths (stateAfter sep T g (Suc n)))) =
        dom (map_of (depths (stateAfter sep T g n))) \<union>
        {t. \<exists>i\<in>set (importsOf g f). targetOf ?r i = Some t}"
      unfolding stateAfter_Suc by (rule processNext_dom [OF Cons])
    ultimately show ?thesis using Suc Cons by auto
  qed
qed

lemma stateAfter_stable:
  "queue (stateAfter sep T g N) = [] \<Longrightarrow> stateAfter sep T g (N + k) = stateAfter sep T g N"
  by (induction k) (simp_all add: stateAfter_Suc processNext_empty)

lemma kahnDrained_stateAfter:
  assumes dg: "distinct (map fst g)"
  shows "\<exists>N. kahnDrained sep T g = Some (stateAfter sep T g N) \<and> queue (stateAfter sep T g N) = []"
proof -
  have "\<exists>st. kahnDrained sep T g = Some st \<and> queue st = [] \<and> (\<exists>n. st = stateAfter sep T g n)"
  proof (rule kahnDrained_rule [OF dg])
    show "\<exists>n. kahnStart sep T g = stateAfter sep T g n"
      by (rule exI [of _ 0]) (simp add: stateAfter_0)
  next
    fix s assume "\<exists>n. s = stateAfter sep T g n"
    then obtain n where "s = stateAfter sep T g n" by blast
    then have "processNext g (fst (countIncoming sep T g)) s = stateAfter sep T g (Suc n)"
      by (simp add: stateAfter_Suc)
    then show "\<exists>n. processNext g (fst (countIncoming sep T g)) s = stateAfter sep T g n" by blast
  qed
  then show ?thesis by blast
qed

lemma pendingInto_zero_iff:
  "pendingInto tgt g D t = 0 \<longleftrightarrow>
     (\<forall>entry\<in>set g. D (fst entry) \<or> (\<forall>i\<in>set (snd entry). tgt i \<noteq> Some t))"
proof -
  have "pendingInto tgt g D t = 0 \<longleftrightarrow>
      (\<forall>entry\<in>set g. (if D (fst entry) then 0 else edgesInto tgt (snd entry) t) = 0)"
    by (auto simp: pendingInto_def)
  also have "\<dots> \<longleftrightarrow> (\<forall>entry\<in>set g. D (fst entry) \<or> (\<forall>i\<in>set (snd entry). tgt i \<noteq> Some t))"
    by (rule ball_cong [OF refl]) (simp add: edgesInto_def filter_empty_conv)
  finally show ?thesis .
qed

lemma count_zero_sources_done:
  assumes inv: "kahnInv (targetOf (fst (countIncoming sep T g))) g T st"
    and c: "getOr0 (incomingCount st) t = 0"
    and e: "e \<in> set (matchedIncoming sep T g t)"
  shows "isDone T st (fst e)"
proof -
  obtain f i where fi: "e = (f, i)" by (cases e)
  then obtain imps where m: "(f, imps) \<in> set g" "i \<in> set imps" "matchOf sep T i = Some t"
    using e by (auto simp: matchedIncoming_mem)
  then have "i \<in> importedPaths g" by (force simp: importedPaths_def)
  then have tg: "targetOf (fst (countIncoming sep T g)) i = Some t"
    using m(3) by (simp add: targetOf_countIncoming)
  have "pendingInto (targetOf (fst (countIncoming sep T g))) g (isDone T st) t = 0"
    using inv c by (simp add: kahnInv_def)
  then have "\<forall>entry\<in>set g. isDone T st (fst entry) \<or>
      (\<forall>i\<in>set (snd entry). targetOf (fst (countIncoming sep T g)) i \<noteq> Some t)"
    by (simp only: pendingInto_zero_iff)
  from bspec [OF this m(1)] have "isDone T st f" using m(2) tg by auto
  then show ?thesis by (simp add: fi)
qed

lemma kahnInv_queue:
  assumes "kahnInv tgt g T st" and "x \<in> set (queue st)"
  shows "x \<in> set T" and "getOr0 (incomingCount st) x = 0"
  using assms unfolding kahnInv_def by blast+

lemma released_start:
  assumes dg: "distinct (map fst g)"
    and a: "isDone T (stateAfter sep T g 0) x \<or> x \<in> set (queue (stateAfter sep T g 0))"
  shows "released sep T g x"
proof -
  let ?st = "stateAfter sep T g 0"
  have nd: "\<not> isDone T ?st y" for y using stateAfter_done [OF dg, of T sep 0 y] by simp
  then have xq: "x \<in> set (queue ?st)" using a by blast
  have inv: "kahnInv (targetOf (fst (countIncoming sep T g))) g T ?st" by (rule stateAfter_inv [OF dg])
  have xT: "x \<in> set T" and c: "getOr0 (incomingCount ?st) x = 0"
    using kahnInv_queue [OF inv xq] by blast+
  have "matchedIncoming sep T g x = []"
  proof (rule ccontr)
    assume "matchedIncoming sep T g x \<noteq> []"
    then obtain e where "e \<in> set (matchedIncoming sep T g x)" by (cases "matchedIncoming sep T g x") auto
    then show False using count_zero_sources_done [OF inv c] nd by blast
  qed
  then have "\<forall>e\<in>set (matchedIncoming sep T g x). released sep T g (fst e)" by simp
  with xT show ?thesis by (rule released.intros)
qed

lemma released_step:
  assumes dg: "distinct (map fst g)"
    and IH: "\<And>x. isDone T (stateAfter sep T g n) x \<or> x \<in> set (queue (stateAfter sep T g n)) \<Longrightarrow> released sep T g x"
    and prems: "isDone T (stateAfter sep T g (Suc n)) x \<or> x \<in> set (queue (stateAfter sep T g (Suc n)))"
  shows "released sep T g x"
proof -
  let ?s = "stateAfter sep T g n" and ?s' = "stateAfter sep T g (Suc n)"
  have inv': "kahnInv (targetOf (fst (countIncoming sep T g))) g T ?s'" by (rule stateAfter_inv [OF dg])
  have doneRel: "released sep T g y" if d: "isDone T ?s' y" for y
  proof -
    obtain m where m: "m < Suc n" "dequeuedIn sep T g m y"
      using d stateAfter_done [OF dg, of T sep "Suc n" y] by blast
    show ?thesis
    proof (cases "m < n")
      case True
      then have "isDone T ?s y" using m stateAfter_done [OF dg, of T sep n y] by blast
      then show ?thesis by (rule IH [OF disjI1])
    next
      case False
      then have "m = n" using m by simp
      then have "y \<in> set (queue ?s)" using m(2) by (auto simp: dequeuedIn_iff)
      then show ?thesis by (rule IH [OF disjI2])
    qed
  qed
  show ?thesis
  proof (cases "isDone T ?s' x")
    case True
    then show ?thesis by (rule doneRel)
  next
    case False
    then have xq: "x \<in> set (queue ?s')" using prems by blast
    have xT: "x \<in> set T" and c: "getOr0 (incomingCount ?s') x = 0"
      using kahnInv_queue [OF inv' xq] by blast+
    have "\<forall>e\<in>set (matchedIncoming sep T g x). released sep T g (fst e)"
    proof
      fix e assume "e \<in> set (matchedIncoming sep T g x)"
      then have "isDone T ?s' (fst e)" by (rule count_zero_sources_done [OF inv' c])
      then show "released sep T g (fst e)" by (rule doneRel)
    qed
    with xT show ?thesis by (rule released.intros)
  qed
qed

lemma stateAfter_released:
  assumes dg: "distinct (map fst g)"
  shows "isDone T (stateAfter sep T g n) x \<or> x \<in> set (queue (stateAfter sep T g n)) \<Longrightarrow>
         released sep T g x"
proof (induction n arbitrary: x)
  case 0
  then show ?case by (rule released_start [OF dg])
next
  case (Suc n)
  show ?case by (rule released_step [OF dg Suc.IH Suc.prems])
qed

lemma released_done:
  assumes dg: "distinct (map fst g)" and q: "queue (stateAfter sep T g N) = []"
  shows "released sep T g x \<Longrightarrow> isDone T (stateAfter sep T g N) x"
proof (induction rule: released.induct)
  case (release f)
  let ?st = "stateAfter sep T g N" and ?tgt = "targetOf (fst (countIncoming sep T g))"
  have inv: "kahnInv ?tgt g T ?st" by (rule stateAfter_inv [OF dg])
  have "pendingInto ?tgt g (isDone T ?st) f = 0"
    unfolding pendingInto_zero_iff
  proof (intro ballI)
    fix entry assume en: "entry \<in> set g"
    show "isDone T ?st (fst entry) \<or> (\<forall>i\<in>set (snd entry). ?tgt i \<noteq> Some f)"
    proof (rule disjCI)
      assume "\<not> (\<forall>i\<in>set (snd entry). ?tgt i \<noteq> Some f)"
      then obtain i where i: "i \<in> set (snd entry)" "?tgt i = Some f" by blast
      then have "matchOf sep T i = Some f"
        by (auto simp: targetOf_countIncoming split: if_splits)
      then have "(fst entry, i) \<in> set (matchedIncoming sep T g f)"
        using en i(1) by (cases entry) (auto simp: matchedIncoming_mem)
      from release.IH [rule_format, OF this] show "isDone T ?st (fst entry)" by simp
    qed
  qed
  then have "getOr0 (incomingCount ?st) f = 0" using inv by (simp add: kahnInv_def)
  then show ?case using release.hyps q by (simp add: isDone_def)
qed

lemma fedBy_matchedIncoming:
  assumes dg: "distinct (map fst g)"
  shows "fedBy sep T g f t \<longleftrightarrow> (\<exists>i. (f, i) \<in> set (matchedIncoming sep T g t))"
proof -
  have "i \<in> set (importsOf g f) \<longleftrightarrow> (\<exists>imps. (f, imps) \<in> set g \<and> i \<in> set imps)" for i
  proof
    assume "i \<in> set (importsOf g f)"
    then show "\<exists>imps. (f, imps) \<in> set g \<and> i \<in> set imps" using importsOf_mem by blast
  next
    assume "\<exists>imps. (f, imps) \<in> set g \<and> i \<in> set imps"
    then obtain imps where m: "(f, imps) \<in> set g" "i \<in> set imps" by blast
    then have "map_of g f = Some imps" using dg by simp
    then show "i \<in> set (importsOf g f)" using m(2) by (simp add: importsOf_def)
  qed
  then show ?thesis by (auto simp: fedBy_def matchedIncoming_mem)
qed

lemma drained_files:
  assumes dg: "distinct (map fst g)" and q: "queue (stateAfter sep T g N) = []"
  shows "(\<exists>n. f \<in> set (queue (stateAfter sep T g n))) \<longleftrightarrow> released sep T g f"
    and "(\<exists>n. dequeuedIn sep T g n f) \<longleftrightarrow> released sep T g f"
    and "(\<exists>m<N. dequeuedIn sep T g m f) \<longleftrightarrow> released sep T g f"
proof -
  have a: "released sep T g f" if "x \<in> set (queue (stateAfter sep T g n))" "x = f" for n x
    using stateAfter_released [OF dg, of T sep n f] that by blast
  have b: "\<exists>m<N. dequeuedIn sep T g m f" if "released sep T g f"
    using released_done [OF dg q that] stateAfter_done [OF dg, of T sep N f] by blast
  have c: "f \<in> set (queue (stateAfter sep T g n))" if "dequeuedIn sep T g n f" for n
    using that by (auto simp: dequeuedIn_iff)
  show "(\<exists>n. f \<in> set (queue (stateAfter sep T g n))) \<longleftrightarrow> released sep T g f"
    using a b c by blast
  show "(\<exists>n. dequeuedIn sep T g n f) \<longleftrightarrow> released sep T g f"
    using a b c by blast
  show "(\<exists>m<N. dequeuedIn sep T g m f) \<longleftrightarrow> released sep T g f"
    using a b c by blast
qed

lemma drained_no_depth:
  assumes dg: "distinct (map fst g)" and q: "queue (stateAfter sep T g N) = []" and p: "p \<in> set T"
  shows "map_of (depths (stateAfter sep T g N)) p = None \<longleftrightarrow>
           matchedIncoming sep T g p \<noteq> [] \<and>
           (\<forall>e\<in>set (matchedIncoming sep T g p). \<not> released sep T g (fst e))"
proof -
  have seed: "p \<in> set (queue (kahnStart sep T g)) \<longleftrightarrow> matchedIncoming sep T g p = []"
    using p by (simp add: kahnStart_queue inDegree_matchedIncoming)
  have fed: "(\<exists>m<N. \<exists>f. dequeuedIn sep T g m f \<and> fedBy sep T g f p) \<longleftrightarrow>
      (\<exists>e\<in>set (matchedIncoming sep T g p). released sep T g (fst e))"
  proof -
    have "(\<exists>m<N. \<exists>f. dequeuedIn sep T g m f \<and> fedBy sep T g f p) \<longleftrightarrow>
        (\<exists>f. (\<exists>m<N. dequeuedIn sep T g m f) \<and> fedBy sep T g f p)" by blast
    also have "\<dots> \<longleftrightarrow> (\<exists>f. released sep T g f \<and> fedBy sep T g f p)"
      by (simp only: drained_files(3) [OF dg q])
    also have "\<dots> \<longleftrightarrow> (\<exists>f i. released sep T g f \<and> (f, i) \<in> set (matchedIncoming sep T g p))"
      by (simp only: fedBy_matchedIncoming [OF dg]) blast
    also have "\<dots> \<longleftrightarrow> (\<exists>e\<in>set (matchedIncoming sep T g p). released sep T g (fst e))"
      by force
    finally show ?thesis .
  qed
  have "map_of (depths (stateAfter sep T g N)) p = None \<longleftrightarrow>
      p \<notin> dom (map_of (depths (stateAfter sep T g N)))" by (simp add: domIff)
  also have "\<dots> \<longleftrightarrow> p \<notin> set (queue (kahnStart sep T g)) \<and>
      \<not> (\<exists>m<N. \<exists>f. dequeuedIn sep T g m f \<and> fedBy sep T g f p)"
    unfolding stateAfter_dom by blast
  also have "\<dots> \<longleftrightarrow> matchedIncoming sep T g p \<noteq> [] \<and>
      (\<forall>e\<in>set (matchedIncoming sep T g p). \<not> released sep T g (fst e))"
    unfolding seed fed by blast
  finally show ?thesis .
qed

subsection \<open>The depths that the traversal assigns\<close>

lemma fold_relax_depth:
  "map_of (depths (fold (relaxImport r d) is st)) t =
     (if \<exists>i\<in>set is. targetOf r i = Some t
      then Some (max (getOr0 (depths st) t) (d + 1))
      else map_of (depths st) t)"
proof (induction "is" arbitrary: st)
  case Nil
  then show ?case by simp
next
  case (Cons i "is")
  show ?case
  proof (cases "targetOf r i")
    case None
    then show ?thesis using Cons.IH [of st] by (simp add: relaxImport_skip)
  next
    case (Some m)
    let ?st' = "relaxImport r d i st"
    have d': "map_of (depths ?st') = (map_of (depths st))(m \<mapsto> max (getOr0 (depths st) m) (d + 1))"
      by (rule relaxImport_depths [OF Some])
    have g': "getOr0 (depths ?st') x = (if x = m then max (getOr0 (depths st) m) (d + 1) else getOr0 (depths st) x)" for x
      by (simp add: getOr0_def d')
    show ?thesis
    proof (cases "t = m")
      case True
      then show ?thesis using Cons.IH [of ?st'] Some by (simp add: g' d')
    next
      case False
      then show ?thesis using Cons.IH [of ?st'] Some by (simp add: g' d')
    qed
  qed
qed

lemma processNext_depth:
  assumes q: "queue st = c # rest"
  shows "map_of (depths (processNext g r st)) t =
     (if \<exists>i\<in>set (importsOf g c). targetOf r i = Some t
      then Some (max (getOr0 (depths st) t) (getOr0 (depths st) c + 1))
      else map_of (depths st) t)"
  unfolding processNext_unfold [OF q] fold_relax_depth by simp

lemma stateAfter_depth_step:
  assumes q: "queue (stateAfter sep T g n) = c # rest"
  shows "map_of (depths (stateAfter sep T g (Suc n))) t =
     (if fedBy sep T g c t
      then Some (max (getOr0 (depths (stateAfter sep T g n)) t)
                     (getOr0 (depths (stateAfter sep T g n)) c + 1))
      else map_of (depths (stateAfter sep T g n)) t)"
  unfolding stateAfter_Suc processNext_depth [OF q] fedBy_targetOf by simp

lemma settled_not_fed:
  assumes dg: "distinct (map fst g)"
    and q: "queue (stateAfter sep T g n) = c # rest"
    and s: "isDone T (stateAfter sep T g n) f \<or> f \<in> set (queue (stateAfter sep T g n))"
  shows "\<not> fedBy sep T g c f"
proof
  assume "fedBy sep T g c f"
  then obtain i where i: "(c, i) \<in> set (matchedIncoming sep T g f)"
    using fedBy_matchedIncoming [OF dg] by blast
  let ?st = "stateAfter sep T g n"
  have inv: "kahnInv (targetOf (fst (countIncoming sep T g))) g T ?st" by (rule stateAfter_inv [OF dg])
  have "getOr0 (incomingCount ?st) f = 0"
  proof (cases "f \<in> set (queue ?st)")
    case True
    then show ?thesis by (rule kahnInv_queue(2) [OF inv])
  next
    case False
    then show ?thesis using s by (simp add: isDone_def)
  qed
  from count_zero_sources_done [OF inv this i] have "isDone T ?st c" by simp
  then show False using q by (simp add: isDone_def)
qed

lemma settled_depth_kept:
  assumes dg: "distinct (map fst g)"
    and s: "isDone T (stateAfter sep T g n) f \<or> f \<in> set (queue (stateAfter sep T g n))"
  shows "map_of (depths (stateAfter sep T g (Suc n))) f = map_of (depths (stateAfter sep T g n)) f"
proof (cases "queue (stateAfter sep T g n)")
  case Nil
  then show ?thesis by (simp add: stateAfter_Suc processNext_empty)
next
  case (Cons c rest)
  have "\<not> fedBy sep T g c f" by (rule settled_not_fed [OF dg Cons s])
  then show ?thesis by (simp add: stateAfter_depth_step [OF Cons])
qed

lemma stateAfter_done_Suc:
  assumes dg: "distinct (map fst g)" and q: "queue (stateAfter sep T g n) = c # rest"
  shows "isDone T (stateAfter sep T g (Suc n)) x \<longleftrightarrow> isDone T (stateAfter sep T g n) x \<or> x = c"
proof -
  have "dequeuedIn sep T g n x \<longleftrightarrow> x = c" using q by (auto simp: dequeuedIn_def)
  then show ?thesis
    unfolding stateAfter_done [OF dg] by (auto simp: less_Suc_eq)
qed

lemma done_feeder_gives_depth:
  assumes dg: "distinct (map fst g)"
    and f: "isDone T (stateAfter sep T g n) f" and fed: "fedBy sep T g f t"
  shows "map_of (depths (stateAfter sep T g n)) t \<noteq> None"
proof -
  obtain m where "m < n" "dequeuedIn sep T g m f" using f stateAfter_done [OF dg] by blast
  then have "t \<in> dom (map_of (depths (stateAfter sep T g n)))"
    unfolding stateAfter_dom using fed by blast
  then show ?thesis by (simp add: domIff)
qed

lemma stateAfter_depth_value:
  assumes dg: "distinct (map fst g)"
  shows "map_of (depths (stateAfter sep T g n)) t = Some d \<Longrightarrow>
         d = Max (insert 0 ((\<lambda>f. getOr0 (depths (stateAfter sep T g n)) f + 1) `
                            {f. isDone T (stateAfter sep T g n) f \<and> fedBy sep T g f t}))"
proof (induction n arbitrary: t d)
  case 0
  have nd: "\<not> isDone T (stateAfter sep T g 0) f" for f
    using stateAfter_done [OF dg, of T sep 0 f] by simp
  have "d = 0" using 0 by (auto simp: stateAfter_0 kahnStart_eq map_of_zero_depths split: if_splits)
  then show ?case by (simp add: nd)
next
  case (Suc n)
  let ?s = "stateAfter sep T g n" and ?s' = "stateAfter sep T g (Suc n)"
  let ?A = "{f. isDone T ?s f \<and> fedBy sep T g f t}"
  let ?A' = "{f. isDone T ?s' f \<and> fedBy sep T g f t}"
  let ?h = "\<lambda>f. getOr0 (depths ?s) f + 1" and ?h' = "\<lambda>f. getOr0 (depths ?s') f + 1"
  show ?case
  proof (cases "queue ?s")
    case Nil
    then have "?s' = ?s" by (simp add: stateAfter_Suc processNext_empty)
    then show ?thesis using Suc by simp
  next
    case (Cons c rest)
    have fin: "finite ?A" by (rule finite_subset [of _ "set T"]) (auto simp: isDone_def)
    have dn: "isDone T ?s' x \<longleftrightarrow> isDone T ?s x \<or> x = c" for x
      by (rule stateAfter_done_Suc [OF dg Cons])
    have keep: "?h' f = ?h f" if "isDone T ?s f \<or> f = c" for f
    proof -
      have "isDone T ?s f \<or> f \<in> set (queue ?s)" using that Cons by auto
      then have "map_of (depths ?s') f = map_of (depths ?s) f" by (rule settled_depth_kept [OF dg])
      then show ?thesis by (simp add: getOr0_def)
    qed
    have A': "?A' = ?A \<union> (if fedBy sep T g c t then {c} else {})"
      by (auto simp: dn)
    have img: "?h' ` ?A' = ?h ` ?A'"
      by (rule image_cong [OF refl]) (use keep dn in auto)
    have old: "getOr0 (depths ?s) t = Max (insert 0 (?h ` ?A))"
    proof (cases "map_of (depths ?s) t")
      case None
      then have "?A = {}" using done_feeder_gives_depth [OF dg] by blast
      then have "?h ` ?A = {}" by (simp only: image_empty)
      then have "Max (insert 0 (?h ` ?A)) = 0" by (simp only: Max_singleton)
      then show ?thesis using None by (simp add: getOr0_def)
    next
      case (Some d0)
      then show ?thesis using Suc.IH [OF Some] by (simp add: getOr0_def)
    qed
    show ?thesis
    proof (cases "fedBy sep T g c t")
      case True
      have "d = max (getOr0 (depths ?s) t) (?h c)"
        using Suc.prems True by (simp add: stateAfter_depth_step [OF Cons])
      also have "\<dots> = max (Max (insert 0 (?h ` ?A))) (?h c)" by (simp only: old)
      also have "\<dots> = Max (insert (?h c) (insert 0 (?h ` ?A)))"
        using fin by (simp add: max.commute)
      also have "insert (?h c) (insert 0 (?h ` ?A)) = insert 0 (?h ` ?A')"
        using True by (auto simp: A')
      finally show ?thesis by (simp only: img)
    next
      case False
      have "map_of (depths ?s) t = Some d"
        using Suc.prems False by (simp add: stateAfter_depth_step [OF Cons])
      then have "d = Max (insert 0 (?h ` ?A))" by (rule Suc.IH)
      moreover have "?A' = ?A" using False by (simp add: A')
      ultimately have "d = Max (insert 0 (?h ` ?A'))" by simp
      then show ?thesis by (simp only: img)
    qed
  qed
qed

lemma drained_depth_value:
  assumes dg: "distinct (map fst g)" and q: "queue (stateAfter sep T g N) = []"
    and d: "map_of (depths (stateAfter sep T g N)) t = Some d"
  shows "d = Max (insert 0 ((\<lambda>e. getOr0 (depths (stateAfter sep T g N)) (fst e) + 1) `
                      {e \<in> set (matchedIncoming sep T g t). released sep T g (fst e)}))"
proof -
  let ?st = "stateAfter sep T g N"
  have dn: "isDone T ?st f \<longleftrightarrow> released sep T g f" for f
    using stateAfter_done [OF dg, of T sep N f] drained_files(3) [OF dg q, of f] by simp
  have "{f. isDone T ?st f \<and> fedBy sep T g f t} =
      fst ` {e \<in> set (matchedIncoming sep T g t). released sep T g (fst e)}"
    unfolding dn fedBy_matchedIncoming [OF dg] by force
  then have "(\<lambda>f. getOr0 (depths ?st) f + 1) ` {f. isDone T ?st f \<and> fedBy sep T g f t} =
      (\<lambda>e. getOr0 (depths ?st) (fst e) + 1) ` {e \<in> set (matchedIncoming sep T g t). released sep T g (fst e)}"
    by (simp add: image_image)
  then show ?thesis using stateAfter_depth_value [OF dg d] by simp
qed


subsection \<open>Files left without a depth\<close>

lemma drained_depths:
  assumes dg: "distinct (map fst graph)"
  shows "\<exists>st. kahnDrained sep T graph = Some st \<and> queue st = []"
  using kahnDrained_rule [where I = "\<lambda>s. True", OF dg] by blast

lemma two_cycle_scores:
  assumes T: "tabPathSet tabs = [a, b]" and ab: "a \<noteq> b"
    and g: "graph = [(a, [ia]), (b, [ib])]"
    and ma: "matchOf (pathSep h) [a, b] ia = Some b" and mb: "matchOf (pathSep h) [a, b] ib = Some a"
  shows "calculateImportScores h graph tabs = Some [(a, 1), (b, 1)]"
proof -
  let ?sep = "pathSep h"
  have da: "0 < inDegree ?sep [a, b] graph a"
    by (rule inDegree_pos [where f = b and imps = "[ib]" and i = ib]) (simp_all add: g mb)
  have db: "0 < inDegree ?sep [a, b] graph b"
    by (rule inDegree_pos [where f = a and imps = "[ia]" and i = ia]) (simp_all add: g ma)
  have q: "set (queue (kahnStart ?sep [a, b] graph)) = {}"
    using da db by (auto simp: kahnStart_queue)
  then have q0: "queue (kahnStart ?sep [a, b] graph) = []" by simp
  then have z: "zeroKeys (snd (countIncoming ?sep [a, b] graph)) = []"
    by (simp add: kahnStart_eq)
  have d0: "depths (kahnStart ?sep [a, b] graph) = []" by (simp add: kahnStart_eq z)
  have "kahnDrained ?sep [a, b] graph = Some (kahnStart ?sep [a, b] graph)"
    unfolding kahnDrained_def by (subst drainQueue.simps) (simp add: q0)
  then have "calculateImportScores h graph tabs = Some (assignRemaining [a, b] [])"
    using calculateImportScores_eq [of h tabs graph] by (simp add: T d0)
  then show ?thesis using ab by (simp add: assignRemaining_def maxDepthOf_def)
qed

text \<open>
  C3, as the code has it. For a graph whose keys are distinct the traversal ends: the
  state after some number of iterations has an empty queue, and it is the state the
  scores are read from. The files that are in the queue at some iteration are the files
  that are dequeued at some iteration, and they are the released files. An open file
  \<open>p\<close> has no depth entry at the end exactly when it has a matched incoming edge and
  the importer of none of its matched incoming edges is released; it then gets the
  largest depth assigned so far (0 when there is none) plus one. An open file that has
  an entry keeps it, whether or not the file was ever in the queue. Every depth entry
  at the end is the largest depth of a released importer of the file plus one, and 0
  when there is no such importer. Two open files that reference each other and nothing
  else both get depth 1.
\<close>

theorem unassigned_files_get_max_plus_one:
  "(distinct (map fst graph) \<and> p \<in> set (tabPathSet tabs) \<longrightarrow>
      (\<exists>N st scores.
         kahnDrained (pathSep h) (tabPathSet tabs) graph = Some st \<and>
         st = stateAfter (pathSep h) (tabPathSet tabs) graph N \<and> queue st = [] \<and>
         calculateImportScores h graph tabs = Some scores \<and>
         (\<forall>f. (\<exists>n. f \<in> set (queue (stateAfter (pathSep h) (tabPathSet tabs) graph n)))
                 \<longleftrightarrow> released (pathSep h) (tabPathSet tabs) graph f) \<and>
         (\<forall>f. (\<exists>n. dequeuedIn (pathSep h) (tabPathSet tabs) graph n f)
                 \<longleftrightarrow> released (pathSep h) (tabPathSet tabs) graph f) \<and>
         (map_of (depths st) p = None \<longleftrightarrow>
            matchedIncoming (pathSep h) (tabPathSet tabs) graph p \<noteq> [] \<and>
            (\<forall>e\<in>set (matchedIncoming (pathSep h) (tabPathSet tabs) graph p).
               \<not> released (pathSep h) (tabPathSet tabs) graph (fst e))) \<and>
         (map_of (depths st) p = None \<longrightarrow>
            map_of scores p = Some (Max (insert 0 (snd ` set (depths st))) + 1)) \<and>
         (\<forall>d. map_of (depths st) p = Some d \<longrightarrow> map_of scores p = Some d) \<and>
         (\<forall>t d. map_of (depths st) t = Some d \<longrightarrow>
            d = Max (insert 0
                  ((\<lambda>e. getOr0 (depths st) (fst e) + 1) `
                   {e \<in> set (matchedIncoming (pathSep h) (tabPathSet tabs) graph t).
                      released (pathSep h) (tabPathSet tabs) graph (fst e)}))))) \<and>
   (tabPathSet tabs = [a, b] \<and> a \<noteq> b \<and> graph = [(a, [ia]), (b, [ib])] \<and>
    matchOf (pathSep h) [a, b] ia = Some b \<and> matchOf (pathSep h) [a, b] ib = Some a \<longrightarrow>
      calculateImportScores h graph tabs = Some [(a, 1), (b, 1)])"
proof (intro conjI impI)
  let ?sep = "pathSep h" and ?T = "tabPathSet tabs"
  assume "distinct (map fst graph) \<and> p \<in> set (tabPathSet tabs)"
  then have dg: "distinct (map fst graph)" and p: "p \<in> set ?T" by simp_all
  obtain N where st: "kahnDrained ?sep ?T graph = Some (stateAfter ?sep ?T graph N)"
      and q: "queue (stateAfter ?sep ?T graph N) = []"
    using kahnDrained_stateAfter [OF dg] by blast
  let ?st = "stateAfter ?sep ?T graph N"
  let ?scores = "assignRemaining ?T (depths ?st)"
  have sc: "calculateImportScores h graph tabs = Some ?scores"
    by (rule calculateImportScores_eq [OF st])
  have e1: "\<forall>f. (\<exists>n. f \<in> set (queue (stateAfter ?sep ?T graph n))) \<longleftrightarrow> released ?sep ?T graph f"
    using drained_files(1) [OF dg q] by blast
  have e2: "\<forall>f. (\<exists>n. dequeuedIn ?sep ?T graph n f) \<longleftrightarrow> released ?sep ?T graph f"
    using drained_files(2) [OF dg q] by blast
  have n: "map_of (depths ?st) p = None \<longleftrightarrow>
            matchedIncoming ?sep ?T graph p \<noteq> [] \<and>
            (\<forall>e\<in>set (matchedIncoming ?sep ?T graph p). \<not> released ?sep ?T graph (fst e))"
    by (rule drained_no_depth [OF dg q p])
  have a: "map_of (depths ?st) p = None \<longrightarrow>
      map_of ?scores p = Some (Max (insert 0 (snd ` set (depths ?st))) + 1)"
    using p by (simp add: assignRemaining_map maxDepthOf_Max)
  have b: "\<forall>d. map_of (depths ?st) p = Some d \<longrightarrow> map_of ?scores p = Some d"
    by (simp add: assignRemaining_map)
  have v: "\<forall>t d. map_of (depths ?st) t = Some d \<longrightarrow>
            d = Max (insert 0
                  ((\<lambda>e. getOr0 (depths ?st) (fst e) + 1) `
                   {e \<in> set (matchedIncoming ?sep ?T graph t).
                      released ?sep ?T graph (fst e)}))"
    using drained_depth_value [OF dg q] by blast
  show "\<exists>N st scores.
         kahnDrained ?sep ?T graph = Some st \<and>
         st = stateAfter ?sep ?T graph N \<and> queue st = [] \<and>
         calculateImportScores h graph tabs = Some scores \<and>
         (\<forall>f. (\<exists>n. f \<in> set (queue (stateAfter ?sep ?T graph n)))
                 \<longleftrightarrow> released ?sep ?T graph f) \<and>
         (\<forall>f. (\<exists>n. dequeuedIn ?sep ?T graph n f)
                 \<longleftrightarrow> released ?sep ?T graph f) \<and>
         (map_of (depths st) p = None \<longleftrightarrow>
            matchedIncoming ?sep ?T graph p \<noteq> [] \<and>
            (\<forall>e\<in>set (matchedIncoming ?sep ?T graph p).
               \<not> released ?sep ?T graph (fst e))) \<and>
         (map_of (depths st) p = None \<longrightarrow>
            map_of scores p = Some (Max (insert 0 (snd ` set (depths st))) + 1)) \<and>
         (\<forall>d. map_of (depths st) p = Some d \<longrightarrow> map_of scores p = Some d) \<and>
         (\<forall>t d. map_of (depths st) t = Some d \<longrightarrow>
            d = Max (insert 0
                  ((\<lambda>e. getOr0 (depths st) (fst e) + 1) `
                   {e \<in> set (matchedIncoming ?sep ?T graph t).
                      released ?sep ?T graph (fst e)})))"
    apply (rule exI [of _ N], rule exI [of _ ?st], rule exI [of _ ?scores])
    apply (intro conjI)
    apply (rule st, rule refl, rule q, rule sc, rule e1, rule e2, rule n, rule a, rule b, rule v)
    done
next
  assume "tabPathSet tabs = [a, b] \<and> a \<noteq> b \<and> graph = [(a, [ia]), (b, [ib])] \<and>
    matchOf (pathSep h) [a, b] ia = Some b \<and> matchOf (pathSep h) [a, b] ib = Some a"
  then show "calculateImportScores h graph tabs = Some [(a, 1), (b, 1)]"
    using two_cycle_scores by blast
qed

theorem unassigned_files_get_max_plus_one_witness:
  "distinct (map fst chainGraph) \<and> ''/p/c.js'' \<in> set (tabPathSet chainTabs) \<and>
   kahnDrained (pathSep chainHost) (tabPathSet chainTabs) chainGraph =
     Some \<lparr>queue = [],
           incomingCount = [(''/p/a.js'', 0), (''/p/b.js'', 1), (''/p/c.js'', 1)],
           depths = [(''/p/a.js'', 0), (''/p/b.js'', 1)]\<rparr> \<and>
   queue (stateAfter (pathSep chainHost) (tabPathSet chainTabs) chainGraph 0) = [''/p/a.js''] \<and>
   released (pathSep chainHost) (tabPathSet chainTabs) chainGraph ''/p/a.js'' \<and>
   matchedIncoming (pathSep chainHost) (tabPathSet chainTabs) chainGraph ''/p/c.js''
     = [(''/p/b.js'', ''/p/c.js'')] \<and>
   \<not> released (pathSep chainHost) (tabPathSet chainTabs) chainGraph ''/p/b.js'' \<and>
   \<not> released (pathSep chainHost) (tabPathSet chainTabs) chainGraph ''/p/c.js'' \<and>
   {e \<in> set (matchedIncoming (pathSep chainHost) (tabPathSet chainTabs) chainGraph ''/p/b.js'').
      released (pathSep chainHost) (tabPathSet chainTabs) chainGraph (fst e)}
     = {(''/p/a.js'', ''/p/b.js'')} \<and>
   (1::nat) = Max (insert 0
       ((\<lambda>e. getOr0 [(''/p/a.js'', 0::nat), (''/p/b.js'', 1)] (fst e) + 1) `
        {e \<in> set (matchedIncoming (pathSep chainHost) (tabPathSet chainTabs) chainGraph ''/p/b.js'').
           released (pathSep chainHost) (tabPathSet chainTabs) chainGraph (fst e)})) \<and>
   map_of [(''/p/a.js'', 0::nat), (''/p/b.js'', 1)] ''/p/c.js'' = None \<and>
   calculateImportScores chainHost chainGraph chainTabs
     = Some [(''/p/a.js'', 0), (''/p/b.js'', 1), (''/p/c.js'', 2)] \<and>
   map_of [(''/p/a.js'', 0::nat), (''/p/b.js'', 1), (''/p/c.js'', 2)] ''/p/c.js''
     = Some (Max (insert 0 (snd ` set [(''/p/a.js'', 0::nat), (''/p/b.js'', 1)])) + 1) \<and>
   tabPathSet [fileTab ''/p/a.js'', fileTab ''/p/b.js''] = [''/p/a.js'', ''/p/b.js''] \<and>
   matchOf (pathSep chainHost) [''/p/a.js'', ''/p/b.js''] ''/p/b.js'' = Some ''/p/b.js'' \<and>
   matchOf (pathSep chainHost) [''/p/a.js'', ''/p/b.js''] ''/p/a.js'' = Some ''/p/a.js'' \<and>
   calculateImportScores chainHost [(''/p/a.js'', [''/p/b.js'']), (''/p/b.js'', [''/p/a.js''])]
       [fileTab ''/p/a.js'', fileTab ''/p/b.js'']
     = Some [(''/p/a.js'', 1), (''/p/b.js'', 1)]"
proof -
  let ?sep = "pathSep chainHost" and ?T = "tabPathSet chainTabs"
  let ?st = "\<lparr>queue = [],
           incomingCount = [(''/p/a.js'', 0::nat), (''/p/b.js'', 1), (''/p/c.js'', 1)],
           depths = [(''/p/a.js'', 0::nat), (''/p/b.js'', 1)]\<rparr>"
  have dg: "distinct (map fst chainGraph)" by (simp add: chainGraph_def)
  have pc: "''/p/c.js'' \<in> set ?T" by code_simp
  have dr: "kahnDrained ?sep ?T chainGraph = Some ?st" by code_simp
  have q0: "queue (stateAfter ?sep ?T chainGraph 0) = [''/p/a.js'']"
    unfolding stateAfter_def by code_simp
  have mc: "matchedIncoming ?sep ?T chainGraph ''/p/c.js'' = [(''/p/b.js'', ''/p/c.js'')]"
    by code_simp
  have none: "map_of [(''/p/a.js'', 0::nat), (''/p/b.js'', 1)] ''/p/c.js'' = None" by simp
  have sc: "calculateImportScores chainHost chainGraph chainTabs
     = Some [(''/p/a.js'', 0), (''/p/b.js'', 1), (''/p/c.js'', 2)]"
    by code_simp
  have T2: "tabPathSet [fileTab ''/p/a.js'', fileTab ''/p/b.js''] = [''/p/a.js'', ''/p/b.js'']"
    by code_simp
  have m1: "matchOf ?sep [''/p/a.js'', ''/p/b.js''] ''/p/b.js'' = Some ''/p/b.js''"
    by code_simp
  have m2: "matchOf ?sep [''/p/a.js'', ''/p/b.js''] ''/p/a.js'' = Some ''/p/a.js''"
    by code_simp
  note inst = unassigned_files_get_max_plus_one
    [where graph = chainGraph and p = "''/p/c.js''" and tabs = chainTabs and h = chainHost
       and a = "''x''" and b = "''x''" and ia = "''x''" and ib = "''x''"]
  from inst [THEN conjunct1] dg pc dr
  have enq: "\<forall>f. (\<exists>n. f \<in> set (queue (stateAfter ?sep ?T chainGraph n)))
                 \<longleftrightarrow> released ?sep ?T chainGraph f"
    and lack: "map_of (depths ?st) ''/p/c.js'' = None \<longleftrightarrow>
            matchedIncoming ?sep ?T chainGraph ''/p/c.js'' \<noteq> [] \<and>
            (\<forall>e\<in>set (matchedIncoming ?sep ?T chainGraph ''/p/c.js'').
               \<not> released ?sep ?T chainGraph (fst e))"
    and top: "map_of (depths ?st) ''/p/c.js'' = None \<longrightarrow>
            map_of [(''/p/a.js'', 0::nat), (''/p/b.js'', 1), (''/p/c.js'', 2)] ''/p/c.js''
              = Some (Max (insert 0 (snd ` set (depths ?st))) + 1)"
    and val: "\<forall>t d. map_of (depths ?st) t = Some d \<longrightarrow>
            d = Max (insert 0
                  ((\<lambda>e. getOr0 (depths ?st) (fst e) + 1) `
                   {e \<in> set (matchedIncoming ?sep ?T chainGraph t).
                      released ?sep ?T chainGraph (fst e)}))"
    using sc by auto
  have "''/p/a.js'' \<in> set (queue (stateAfter ?sep ?T chainGraph 0))" by (simp add: q0)
  then have ra: "released ?sep ?T chainGraph ''/p/a.js''" using enq by blast
  have "\<forall>e\<in>set (matchedIncoming ?sep ?T chainGraph ''/p/c.js'').
          \<not> released ?sep ?T chainGraph (fst e)"
    using lack by simp
  then have rb: "\<not> released ?sep ?T chainGraph ''/p/b.js''" by (simp add: mc)
  have rc: "\<not> released ?sep ?T chainGraph ''/p/c.js''"
  proof
    assume "released ?sep ?T chainGraph ''/p/c.js''"
    then have "\<forall>e\<in>set (matchedIncoming ?sep ?T chainGraph ''/p/c.js'').
        released ?sep ?T chainGraph (fst e)"
      by (rule released.cases) simp
    then show False using rb by (simp add: mc)
  qed
  have one: "map_of [(''/p/a.js'', 0::nat), (''/p/b.js'', 1), (''/p/c.js'', 2)] ''/p/c.js''
     = Some (Max (insert 0 (snd ` set [(''/p/a.js'', 0::nat), (''/p/b.js'', 1)])) + 1)"
    using top by simp
  have mb: "matchedIncoming ?sep ?T chainGraph ''/p/b.js''
      = [(''/p/a.js'', ''/p/b.js''), (''/p/c.js'', ''/p/b.js'')]"
    by code_simp
  have rel: "{e \<in> set (matchedIncoming ?sep ?T chainGraph ''/p/b.js'').
      released ?sep ?T chainGraph (fst e)} = {(''/p/a.js'', ''/p/b.js'')}"
    using ra rc by (auto simp: mb)
  have "map_of (depths ?st) ''/p/b.js'' = Some 1" by simp
  with val have vb: "(1::nat) = Max (insert 0
       ((\<lambda>e. getOr0 [(''/p/a.js'', 0::nat), (''/p/b.js'', 1)] (fst e) + 1) `
        {e \<in> set (matchedIncoming ?sep ?T chainGraph ''/p/b.js'').
           released ?sep ?T chainGraph (fst e)}))"
    by fastforce
  have two: "calculateImportScores chainHost [(''/p/a.js'', [''/p/b.js'']), (''/p/b.js'', [''/p/a.js''])]
       [fileTab ''/p/a.js'', fileTab ''/p/b.js'']
     = Some [(''/p/a.js'', 1), (''/p/b.js'', 1)]"
    using unassigned_files_get_max_plus_one
      [where graph = "[(''/p/a.js'', [''/p/b.js'']), (''/p/b.js'', [''/p/a.js''])]"
         and tabs = "[fileTab ''/p/a.js'', fileTab ''/p/b.js'']" and h = chainHost
         and a = "''/p/a.js''" and b = "''/p/b.js''" and ia = "''/p/b.js''" and ib = "''/p/a.js''"
         and p = "''x''", THEN conjunct2] T2 m1 m2
    by simp
  show ?thesis using dg pc dr q0 ra mc rb rc rel vb none sc one T2 m1 m2 two by blast
qed

text \<open>
  A file that is never enqueued need not get the largest depth plus one. With
  \<^verbatim>\<open>a.js\<close> requiring \<^verbatim>\<open>b.js\<close> and \<^verbatim>\<open>b.js\<close>, \<^verbatim>\<open>c.js\<close> requiring each other, the
  queue holds \<^verbatim>\<open>a.js\<close> and is empty after one iteration, so \<^verbatim>\<open>b.js\<close> is never
  enqueued; the iteration gives it depth 1, the largest depth assigned is then 1, and
  \<^verbatim>\<open>b.js\<close> ends with depth 1, not 2.
\<close>

theorem partial_cycle_member_keeps_its_depth:
  "importGraph (buildImportGraph chainHost chainTabs freshStrategy) = chainGraph \<and>
   kahnStart CHR ''/'' (tabPathSet chainTabs) chainGraph =
     \<lparr>queue = [''/p/a.js''],
      incomingCount = [(''/p/a.js'', 0), (''/p/b.js'', 2), (''/p/c.js'', 1)],
      depths = [(''/p/a.js'', 0)]\<rparr> \<and>
   processNext chainGraph (fst (countIncoming CHR ''/'' (tabPathSet chainTabs) chainGraph))
       (kahnStart CHR ''/'' (tabPathSet chainTabs) chainGraph) =
     \<lparr>queue = [],
      incomingCount = [(''/p/a.js'', 0), (''/p/b.js'', 1), (''/p/c.js'', 1)],
      depths = [(''/p/a.js'', 0), (''/p/b.js'', 1)]\<rparr> \<and>
   calculateImportScores chainHost chainGraph chainTabs =
     Some [(''/p/a.js'', 0), (''/p/b.js'', 1), (''/p/c.js'', 2)]"
  by code_simp

subsection \<open>Self-references\<close>

lemma untouched_iter:
  assumes u: "untouched p (kahnStart sep T g)" and only: "\<forall>e\<in>set (matchedIncoming sep T g p). fst e = p"
  shows "untouched p ((processNext g (fst (countIncoming sep T g)) ^^ n) (kahnStart sep T g))"
  by (induction n) (simp_all add: u untouched_step [OF _ only])

text \<open>
  C10. For a graph with distinct keys and an open file \<open>p\<close> one of whose resolved
  imports is matched to \<open>p\<close> itself: the incoming count of \<open>p\<close> when the traversal
  starts is the number of its matched incoming edges, the self-edge among them, so it is
  positive and \<open>p\<close> is not seeded. If moreover every matched incoming edge of \<open>p\<close>
  comes from \<open>p\<close>, then \<open>p\<close> is in the queue after no number of iterations, has no
  depth when the queue is empty, and gets the largest assigned depth (0 when there is
  none) plus one.
\<close>

theorem self_edge_counts_as_incoming:
  assumes dg: "distinct (map fst graph)" and p: "p \<in> set (tabPathSet tabs)"
    and self: "(p, i) \<in> set (matchedIncoming (pathSep h) (tabPathSet tabs) graph p)"
  shows "getOr0 (incomingCount (kahnStart (pathSep h) (tabPathSet tabs) graph)) p
           = length (matchedIncoming (pathSep h) (tabPathSet tabs) graph p) \<and>
         0 < length (matchedIncoming (pathSep h) (tabPathSet tabs) graph p) \<and>
         p \<notin> set (queue (kahnStart (pathSep h) (tabPathSet tabs) graph)) \<and>
         ((\<forall>e\<in>set (matchedIncoming (pathSep h) (tabPathSet tabs) graph p). fst e = p) \<longrightarrow>
            (\<forall>n. p \<notin> set (queue ((processNext graph
                        (fst (countIncoming (pathSep h) (tabPathSet tabs) graph)) ^^ n)
                      (kahnStart (pathSep h) (tabPathSet tabs) graph)))) \<and>
            (\<exists>st scores.
               kahnDrained (pathSep h) (tabPathSet tabs) graph = Some st \<and>
               map_of (depths st) p = None \<and>
               calculateImportScores h graph tabs = Some scores \<and>
               map_of scores p = Some (Max (insert 0 (snd ` set (depths st))) + 1)))"
proof -
  let ?sep = "pathSep h" and ?T = "tabPathSet tabs"
  let ?r = "fst (countIncoming ?sep ?T graph)" and ?start = "kahnStart ?sep ?T graph"
  have cnt: "getOr0 (incomingCount ?start) p = length (matchedIncoming ?sep ?T graph p)"
    by (simp add: kahnStart_count inDegree_matchedIncoming)
  have pos: "0 < length (matchedIncoming ?sep ?T graph p)" using self by (auto simp: length_greater_0_conv)
  have nq: "p \<notin> set (queue ?start)"
    using pos by (simp add: kahnStart_queue inDegree_matchedIncoming)
  have u0: "untouched p ?start"
    using nq pos by (simp add: untouched_def kahnStart_depths inDegree_matchedIncoming)
  have rest: "(\<forall>n. p \<notin> set (queue ((processNext graph ?r ^^ n) ?start))) \<and>
      (\<exists>st scores. kahnDrained ?sep ?T graph = Some st \<and> map_of (depths st) p = None \<and>
         calculateImportScores h graph tabs = Some scores \<and>
         map_of scores p = Some (Max (insert 0 (snd ` set (depths st))) + 1))"
    if only: "\<forall>e\<in>set (matchedIncoming ?sep ?T graph p). fst e = p"
  proof -
    have it: "p \<notin> set (queue ((processNext graph ?r ^^ n) ?start))" for n
      using untouched_iter [OF u0 only, of n] by (simp add: untouched_def)
    obtain st where st: "kahnDrained ?sep ?T graph = Some st" and un: "untouched p st"
      using kahnDrained_rule [where I = "untouched p", OF dg u0 untouched_step [OF _ only]]
      by blast
    have none: "map_of (depths st) p = None" using un by (simp add: untouched_def)
    have "map_of (assignRemaining ?T (depths st)) p = Some (Max (insert 0 (snd ` set (depths st))) + 1)"
      using none p by (simp add: assignRemaining_map maxDepthOf_Max)
    then have "\<exists>st scores. kahnDrained ?sep ?T graph = Some st \<and> map_of (depths st) p = None \<and>
         calculateImportScores h graph tabs = Some scores \<and>
         map_of scores p = Some (Max (insert 0 (snd ` set (depths st))) + 1)"
      by (intro exI [of _ st] exI [of _ "assignRemaining ?T (depths st)"])
         (use st none calculateImportScores_eq [OF st] in simp)
    then show ?thesis using it by blast
  qed
  show ?thesis using cnt pos nq rest by blast
qed

theorem self_edge_counts_as_incoming_witness:
  "importGraph (buildImportGraph selfHost [fileTab ''/p/s.js''] freshStrategy) = [(''/p/s.js'', [''/p/s.js''])] \<and>
   distinct (map fst [(''/p/s.js'', [''/p/s.js''])]) \<and>
   ''/p/s.js'' \<in> set (tabPathSet [fileTab ''/p/s.js'']) \<and>
   matchedIncoming (pathSep selfHost) (tabPathSet [fileTab ''/p/s.js'']) [(''/p/s.js'', [''/p/s.js''])] ''/p/s.js''
     = [(''/p/s.js'', ''/p/s.js'')] \<and>
   getOr0 (incomingCount (kahnStart (pathSep selfHost) (tabPathSet [fileTab ''/p/s.js''])
       [(''/p/s.js'', [''/p/s.js''])])) ''/p/s.js'' = 1 \<and>
   ''/p/s.js'' \<notin> set (queue (kahnStart (pathSep selfHost) (tabPathSet [fileTab ''/p/s.js''])
       [(''/p/s.js'', [''/p/s.js''])])) \<and>
   calculateImportScores selfHost [(''/p/s.js'', [''/p/s.js''])] [fileTab ''/p/s.js''] = Some [(''/p/s.js'', 1)]"
proof -
  let ?g = "[(''/p/s.js'', [''/p/s.js''])]" and ?tabs = "[fileTab ''/p/s.js'']"
  have bg: "importGraph (buildImportGraph selfHost ?tabs freshStrategy) = ?g" by code_simp
  have dg: "distinct (map fst ?g)" by simp
  have p: "''/p/s.js'' \<in> set (tabPathSet ?tabs)" by code_simp
  have mi: "matchedIncoming (pathSep selfHost) (tabPathSet ?tabs) ?g ''/p/s.js'' = [(''/p/s.js'', ''/p/s.js'')]"
    by code_simp
  have self: "(''/p/s.js'', ''/p/s.js'') \<in> set (matchedIncoming (pathSep selfHost) (tabPathSet ?tabs) ?g ''/p/s.js'')"
    by (simp add: mi)
  have sc: "calculateImportScores selfHost ?g ?tabs = Some [(''/p/s.js'', 1)]" by code_simp
  note inst = self_edge_counts_as_incoming [OF dg p self]
  have c: "getOr0 (incomingCount (kahnStart (pathSep selfHost) (tabPathSet ?tabs) ?g)) ''/p/s.js'' = 1"
    using inst by (simp add: mi)
  have q: "''/p/s.js'' \<notin> set (queue (kahnStart (pathSep selfHost) (tabPathSet ?tabs) ?g))"
    using inst by blast
  show ?thesis using bg dg p mi c q sc by blast
qed

subsection \<open>The extraction cache and the import graph\<close>

lemma cacheLe_refl: "cacheLe s s"
  by (simp add: cacheLe_def)

lemma cacheLe_trans: "cacheLe a b \<Longrightarrow> cacheLe b c \<Longrightarrow> cacheLe a c"
  by (simp add: cacheLe_def)

lemma loadPathAliases_keeps:
  "importCache (loadPathAliases h st) = importCache st \<and>
   importGraph (loadPathAliases h st) = importGraph st"
  by (simp add: loadPathAliases_def split: option.splits prod.splits)

lemma resolveImportPath_keeps:
  "importCache (snd (resolveImportPath h f i st)) = importCache st \<and>
   importGraph (snd (resolveImportPath h f i st)) = importGraph st"
  by (simp add: resolveImportPath_def Let_def loadPathAliases_keeps)

lemma addImport_keeps:
  "importCache (snd (addImport h f i acc)) = importCache (snd acc) \<and>
   importGraph (snd (addImport h f i acc)) = importGraph (snd acc)"
proof -
  obtain r st' where r: "resolveImportPath h f i (snd acc) = (r, st')" by force
  then have "importCache st' = importCache (snd acc) \<and> importGraph st' = importGraph (snd acc)"
    using resolveImportPath_keeps [of h f i "snd acc"] by simp
  then show ?thesis using r by (simp add: addImport_def split: option.splits)
qed

lemma fold_addImport_keeps:
  "importCache (snd (fold (addImport h f) is acc)) = importCache (snd acc) \<and>
   importGraph (snd (fold (addImport h f) is acc)) = importGraph (snd acc)"
  by (induction "is" arbitrary: acc) (simp_all add: addImport_keeps)

lemma extractImports_hit:
  "map_of (importCache st) p = Some imps \<Longrightarrow> extractImports h p st = (imps, st)"
  by (simp add: extractImports_def)

lemma extractImports_unreadable:
  "map_of (importCache st) p = None \<Longrightarrow> openDocumentText h p = None \<Longrightarrow> readFileSync h p = None \<Longrightarrow>
   extractImports h p st = ([], st\<lparr>importCache := AList.update p [] (importCache st)\<rparr>)"
  by (simp add: extractImports_def)

lemma extractImports_props:
  assumes "extractImports h p st = (imps, st')"
  shows "map_of (importCache st') p = Some imps" and "cacheLe st st'"
    and "importGraph st' = importGraph st"
proof -
  have "map_of (importCache st') p = Some imps \<and> cacheLe st st' \<and> importGraph st' = importGraph st"
  proof (cases "map_of (importCache st) p")
    case (Some v)
    then show ?thesis using assms by (auto simp: extractImports_hit cacheLe_def)
  next
    case None
    let ?text = "case openDocumentText h p of Some t \<Rightarrow> Some t | None \<Rightarrow> readFileSync h p"
    show ?thesis
    proof (cases "?text = None \<or> ?text = Some []")
      case True
      then have "imps = [] \<and> st' = st\<lparr>importCache := AList.update p [] (importCache st)\<rparr>"
        using assms None by (auto simp: extractImports_def split: option.splits)
      then show ?thesis using None by (auto simp: cacheLe_def update_conv')
    next
      case False
      then obtain content where t: "?text = Some content" "content \<noteq> []" by auto
      obtain is0 s0 where f: "fold (addImport h p) (importMatches h content) ([], st) = (is0, s0)"
        by force
      have k: "importCache s0 = importCache st" "importGraph s0 = importGraph st"
        using fold_addImport_keeps [of h p "importMatches h content" "([], st)"] f by simp_all
      have "imps = is0 \<and> st' = s0\<lparr>importCache := AList.update p is0 (importCache s0)\<rparr>"
        using assms None t f by (auto simp: extractImports_def split: option.splits)
      then show ?thesis using None k by (auto simp: cacheLe_def update_conv')
    qed
  qed
  then show "map_of (importCache st') p = Some imps" and "cacheLe st st'"
    and "importGraph st' = importGraph st" by simp_all
qed

lemma addToGraph_props:
  shows "cacheLe st (addToGraph h t st)"
    and "truthy (getTabPath t) = None \<Longrightarrow> addToGraph h t st = st"
    and "truthy (getTabPath t) = Some p \<Longrightarrow>
           \<exists>imps. map_of (importCache (addToGraph h t st)) p = Some imps \<and>
                  importGraph (addToGraph h t st) = AList.update p imps (importGraph st)"
proof -
  show "truthy (getTabPath t) = None \<Longrightarrow> addToGraph h t st = st"
    by (simp add: addToGraph_def)
  show "cacheLe st (addToGraph h t st)"
  proof (cases "truthy (getTabPath t)")
    case None then show ?thesis by (simp add: addToGraph_def cacheLe_refl)
  next
    case (Some q)
    obtain imps st' where e: "extractImports h q st = (imps, st')" by force
    then show ?thesis using Some extractImports_props(2) [OF e]
      by (simp add: addToGraph_def cacheLe_def)
  qed
  show "\<exists>imps. map_of (importCache (addToGraph h t st)) p = Some imps \<and>
                  importGraph (addToGraph h t st) = AList.update p imps (importGraph st)"
    if "truthy (getTabPath t) = Some p"
  proof -
    obtain imps st' where e: "extractImports h p st = (imps, st')" by force
    show ?thesis using that e extractImports_props(1,3) [OF e]
      by (simp add: addToGraph_def)
  qed
qed

lemma fold_addToGraph_cacheLe: "cacheLe st (fold (addToGraph h) tabs st)"
proof (induction tabs arbitrary: st)
  case Nil then show ?case by (simp add: cacheLe_refl)
next
  case (Cons t tabs)
  show ?case using cacheLe_trans [OF addToGraph_props(1) Cons] by simp
qed

lemma fold_addToGraph_graph:
  "importGraph (fold (addToGraph h) tabs st) =
     graphFromCache (importCache (fold (addToGraph h) tabs st)) tabs (importGraph st)"
proof (induction tabs arbitrary: st)
  case Nil then show ?case by (simp add: graphFromCache_def)
next
  case (Cons t tabs)
  let ?s1 = "addToGraph h t st" and ?fin = "fold (addToGraph h) (t # tabs) st"
  have fin: "?fin = fold (addToGraph h) tabs ?s1" by simp
  have IH: "importGraph ?fin = graphFromCache (importCache ?fin) tabs (importGraph ?s1)"
    using Cons [of ?s1] by simp
  show ?case
  proof (cases "truthy (getTabPath t)")
    case None
    then show ?thesis using IH addToGraph_props(2) [OF None, of h st]
      by (simp add: graphFromCache_def)
  next
    case (Some p)
    obtain imps where i: "map_of (importCache ?s1) p = Some imps"
      "importGraph ?s1 = AList.update p imps (importGraph st)"
      using addToGraph_props(3) [OF Some, of h st] by blast
    have "map_of (importCache ?fin) p = Some imps"
      using fold_addToGraph_cacheLe [of ?s1 h tabs] i(1) by (simp add: cacheLe_def)
    then show ?thesis using IH i(2) Some by (simp add: graphFromCache_def)
  qed
qed

lemma fold_addToGraph_allCached: "allCached tabs (fold (addToGraph h) tabs st)"
proof (induction tabs arbitrary: st)
  case Nil then show ?case by (simp add: allCached_def)
next
  case (Cons t tabs)
  let ?s1 = "addToGraph h t st"
  have rest: "allCached tabs (fold (addToGraph h) tabs ?s1)" by (rule Cons)
  have "map_of (importCache (fold (addToGraph h) tabs ?s1)) p \<noteq> None"
    if "truthy (getTabPath t) = Some p" for p
    using addToGraph_props(3) [OF that, of h st] fold_addToGraph_cacheLe [of ?s1 h tabs]
    by (auto simp: cacheLe_def)
  then show ?case using rest by (simp add: allCached_def)
qed



lemma distinct_graph_fold:
  "distinct (map fst (importGraph st)) \<Longrightarrow> distinct (map fst (importGraph (fold (addToGraph h) tabs st)))"
proof (induction tabs arbitrary: st)
  case Nil then show ?case by simp
next
  case (Cons t tabs)
  have "distinct (map fst (importGraph (addToGraph h t st)))"
  proof (cases "truthy (getTabPath t)")
    case None then show ?thesis using Cons.prems by (simp add: addToGraph_props(2))
  next
    case (Some p)
    then show ?thesis using addToGraph_props(3) [OF Some, of h st] Cons.prems
      by (auto simp: distinct_update)
  qed
  then show ?case using Cons.IH by simp
qed

lemma distinct_buildImportGraph: "distinct (map fst (importGraph (buildImportGraph h tabs st)))"
  unfolding buildImportGraph_def by (rule distinct_graph_fold) simp

subsection \<open>The sort operation\<close>

lemma mset_insertBy: "mset (insertBy cmp x ys) = add_mset x (mset ys)"
  by (induction ys) auto

lemma mset_sortBy: "mset (sortBy cmp xs) = mset xs"
  by (induction xs) (simp_all add: sortBy_def mset_insertBy)

lemma calculateImportScores_total:
  assumes "distinct (map fst graph)"
  shows "\<exists>scores. calculateImportScores h graph tabs = Some scores"
proof -
  obtain st where "kahnDrained (pathSep h) (tabPathSet tabs) graph = Some st"
    using drained_depths [OF assms] by blast
  then show ?thesis by (simp add: calculateImportScores_eq)
qed

lemma sortTabs_total:
  "\<exists>scores. calculateImportScores h (importGraph (buildImportGraph h tabs st)) tabs = Some scores \<and>
      sortTabs h st tabs = Some (sortBy (compareTabs h scores) tabs, buildImportGraph h tabs st)"
proof -
  obtain scores where
    "calculateImportScores h (importGraph (buildImportGraph h tabs st)) tabs = Some scores"
    using calculateImportScores_total [OF distinct_buildImportGraph] by blast
  then show ?thesis by (simp add: sortTabs_def Let_def)
qed

lemma map_of_graphFromCache:
  "allCached tabs st \<Longrightarrow>
   map_of (graphFromCache (importCache st) tabs G) p =
     (if \<exists>t\<in>set tabs. truthy (getTabPath t) = Some p then map_of (importCache st) p
      else map_of G p)"
proof (induction tabs arbitrary: G)
  case Nil then show ?case by (simp add: graphFromCache_def)
next
  case (Cons t tabs)
  have ac: "allCached tabs st" using Cons.prems by (simp add: allCached_def)
  show ?case
  proof (cases "truthy (getTabPath t)")
    case None
    then show ?thesis using Cons.IH [OF ac, of G] by (simp add: graphFromCache_def)
  next
    case (Some q)
    then obtain imps where c: "map_of (importCache st) q = Some imps"
      using Cons.prems by (auto simp: allCached_def)
    have "graphFromCache (importCache st) (t # tabs) G =
        graphFromCache (importCache st) tabs (AList.update q imps G)"
      using Some c by (simp add: graphFromCache_def)
    then show ?thesis using Cons.IH [OF ac, of "AList.update q imps G"] Some c
      by (auto simp: update_conv')
  qed
qed

lemma buildImportGraph_cache:
  shows "cacheLe st (buildImportGraph h tabs st)"
    and "\<exists>t\<in>set tabs. truthy (getTabPath t) = Some p \<Longrightarrow>
         map_of (importGraph (buildImportGraph h tabs st)) p =
           map_of (importCache (buildImportGraph h tabs st)) p"
proof -
  let ?s0 = "st\<lparr>importGraph := []\<rparr>" and ?s1 = "buildImportGraph h tabs st"
  show "cacheLe st ?s1"
    using fold_addToGraph_cacheLe [of ?s0 h tabs] by (simp add: buildImportGraph_def cacheLe_def)
  have g: "importGraph ?s1 = graphFromCache (importCache ?s1) tabs []"
    unfolding buildImportGraph_def using fold_addToGraph_graph [of h tabs ?s0] by simp
  have ac: "allCached tabs ?s1"
    using fold_addToGraph_allCached [of tabs h ?s0] by (simp add: buildImportGraph_def)
  show "map_of (importGraph ?s1) p = map_of (importCache ?s1) p"
    if "\<exists>t\<in>set tabs. truthy (getTabPath t) = Some p"
    using that map_of_graphFromCache [OF ac, of "[]" p] g by simp
qed

text \<open>
  C1. For every host, state and sequence of tabs, the sort operation returns, and what it
  returns is a permutation of the tabs it was given: the same tabs with the same
  multiplicities.
\<close>

theorem sortTabs_returns_permutation:
  "\<exists>sorted st'. sortTabs h st tabs = Some (sorted, st') \<and> mset sorted = mset tabs"
  using sortTabs_total [of h tabs st] by (auto simp: mset_sortBy)

lemma rotated_sort:
  "sortTabs chainHost freshStrategy rotatedTabs = Some (chainTabs, rotatedState)"
  by code_simp

theorem sortTabs_returns_permutation_witness:
  "sortTabs chainHost freshStrategy rotatedTabs = Some (chainTabs, rotatedState) \<and>
   mset chainTabs = mset rotatedTabs"
proof -
  obtain sorted st' where
    "sortTabs chainHost freshStrategy rotatedTabs = Some (sorted, st')" "mset sorted = mset rotatedTabs"
    using sortTabs_returns_permutation [of chainHost freshStrategy rotatedTabs] by blast
  then show ?thesis using rotated_sort by simp
qed



text \<open>
  C8. When a path has no cache entry and its file cannot be read (no open document, the
  read from disk throws), extraction returns no references and stores the empty set
  under the path. When a path has a cache entry, extraction on any host returns the
  entry and changes nothing, so the file is not read again; every sort call on any host
  and any tabs returns, keeps the entry, and uses it as the imports of the path when the
  path is among the tabs. Clearing the cache removes every entry.
\<close>

theorem extraction_cache_entries_stay:
  "(map_of (importCache st) p = None \<and> openDocumentText h p = None \<and> readFileSync h p = None \<longrightarrow>
      extractImports h p st = ([], st\<lparr>importCache := AList.update p [] (importCache st)\<rparr>)) \<and>
   (map_of (importCache st) p = Some imps \<longrightarrow>
      extractImports h' p st = (imps, st) \<and>
      (\<forall>tabs. \<exists>sorted st'.
         sortTabs h' st tabs = Some (sorted, st') \<and>
         map_of (importCache st') p = Some imps \<and>
         ((\<exists>t\<in>set tabs. truthy (getTabPath t) = Some p) \<longrightarrow> map_of (importGraph st') p = Some imps))) \<and>
   importCache (clearCache st) = []"
proof (intro conjI impI allI)
  assume "map_of (importCache st) p = None \<and> openDocumentText h p = None \<and> readFileSync h p = None"
  then show "extractImports h p st = ([], st\<lparr>importCache := AList.update p [] (importCache st)\<rparr>)"
    by (simp add: extractImports_unreadable)
next
  assume "map_of (importCache st) p = Some imps"
  then show "extractImports h' p st = (imps, st)" by (rule extractImports_hit)
next
  fix tabs
  assume c: "map_of (importCache st) p = Some imps"
  let ?s1 = "buildImportGraph h' tabs st"
  obtain scores where s: "sortTabs h' st tabs = Some (sortBy (compareTabs h' scores) tabs, ?s1)"
    using sortTabs_total [of h' tabs st] by blast
  have k: "map_of (importCache ?s1) p = Some imps"
    using buildImportGraph_cache(1) [of st h' tabs] c by (simp add: cacheLe_def)
  have g: "(\<exists>t\<in>set tabs. truthy (getTabPath t) = Some p) \<longrightarrow> map_of (importGraph ?s1) p = Some imps"
    using buildImportGraph_cache(2) [of tabs p h' st] k by auto
  show "\<exists>sorted st'. sortTabs h' st tabs = Some (sorted, st') \<and>
         map_of (importCache st') p = Some imps \<and>
         ((\<exists>t\<in>set tabs. truthy (getTabPath t) = Some p) \<longrightarrow> map_of (importGraph st') p = Some imps)"
    by (intro exI [of _ "sortBy (compareTabs h' scores) tabs"] exI [of _ ?s1]) (use s k g in simp)
next
  show "importCache (clearCache st) = []" by (simp add: clearCache_def)
qed

theorem extraction_cache_entries_stay_witness:
  "extractImports (exampleHost [] [] [] []) ''/p/a.js'' freshStrategy = ([], staleState) \<and>
   readFileSync chainHost ''/p/a.js'' = Some ''require(\"./b\")'' \<and>
   extractImports chainHost ''/p/a.js'' staleState = ([], staleState) \<and>
   sortTabs chainHost staleState chainTabs = Some (chainTabs, staleSorted) \<and>
   map_of (importGraph staleSorted) ''/p/a.js'' = Some [] \<and>
   importCache (clearCache staleState) = []"
proof -
  let ?h0 = "exampleHost [] [] [] []"
  have pre: "map_of (importCache freshStrategy) ''/p/a.js'' = None \<and>
      openDocumentText ?h0 ''/p/a.js'' = None \<and> readFileSync ?h0 ''/p/a.js'' = None"
    by (simp add: freshStrategy_def exampleHost_def)
  have upd: "freshStrategy\<lparr>importCache := AList.update ''/p/a.js'' [] (importCache freshStrategy)\<rparr> = staleState"
    by (simp add: freshStrategy_def staleState_def)
  have a: "extractImports ?h0 ''/p/a.js'' freshStrategy = ([], staleState)"
    using extraction_cache_entries_stay
            [where st = freshStrategy and p = "''/p/a.js''" and h = ?h0, THEN conjunct1] pre upd
    by simp
  have rd: "readFileSync chainHost ''/p/a.js'' = Some ''require(\"./b\")''" by code_simp
  have hit: "map_of (importCache staleState) ''/p/a.js'' = Some []" by (simp add: staleState_def)
  note inst = extraction_cache_entries_stay
            [where st = staleState and p = "''/p/a.js''" and imps = "[]" and h' = chainHost,
             THEN conjunct2, THEN conjunct1, rule_format, OF hit]
  have b: "extractImports chainHost ''/p/a.js'' staleState = ([], staleState)"
    using inst by blast
  have s: "sortTabs chainHost staleState chainTabs = Some (chainTabs, staleSorted)" by code_simp
  have tab: "\<exists>t\<in>set chainTabs. truthy (getTabPath t) = Some ''/p/a.js''"
    by (simp add: chainTabs_def fileTab_def getTabPath_def truthy_def)
  obtain sorted st' where
    r: "sortTabs chainHost staleState chainTabs = Some (sorted, st')"
       "(\<exists>t\<in>set chainTabs. truthy (getTabPath t) = Some ''/p/a.js'') \<longrightarrow>
          map_of (importGraph st') ''/p/a.js'' = Some []"
    using inst [THEN conjunct2, rule_format, of chainTabs] by blast
  have g: "map_of (importGraph staleSorted) ''/p/a.js'' = Some []"
    using r s tab by simp
  have c: "importCache (clearCache staleState) = []"
    using extraction_cache_entries_stay [where st = staleState] by blast
  show ?thesis using a rd b s g c by blast
qed

subsection \<open>Ties between equal depths\<close>

lemma set_insertBy: "set (insertBy cmp x ys) = insert x (set ys)"
  by (induction ys) auto

lemma sorted_insertBy:
  assumes total: "\<And>a b. cmp a b \<le> 0 \<or> cmp b a \<le> 0"
    and trans: "\<And>a b c. cmp a b \<le> 0 \<Longrightarrow> cmp b c \<le> 0 \<Longrightarrow> cmp a c \<le> 0"
  shows "sorted_wrt (\<lambda>a b. cmp a b \<le> 0) ys \<Longrightarrow> sorted_wrt (\<lambda>a b. cmp a b \<le> 0) (insertBy cmp x ys)"
proof (induction ys)
  case Nil
  then show ?case by simp
next
  case (Cons y ys)
  show ?case
  proof (cases "cmp x y \<le> 0")
    case True
    then have "\<forall>z\<in>set ys. cmp x z \<le> 0" using Cons.prems trans by auto
    then show ?thesis using True Cons.prems by simp
  next
    case False
    then have "cmp y x \<le> 0" using total by blast
    then show ?thesis using False Cons by (auto simp: set_insertBy)
  qed
qed

lemma sorted_sortBy:
  assumes total: "\<And>a b. cmp a b \<le> 0 \<or> cmp b a \<le> 0"
    and trans: "\<And>a b c. cmp a b \<le> 0 \<Longrightarrow> cmp b c \<le> 0 \<Longrightarrow> cmp a c \<le> 0"
  shows "sorted_wrt (\<lambda>a b. cmp a b \<le> 0) (sortBy cmp xs)"
proof (induction xs)
  case Nil
  then show ?case by (simp add: sortBy_def)
next
  case (Cons x xs)
  have "sortBy cmp (x # xs) = insertBy cmp x (sortBy cmp xs)" by (simp add: sortBy_def)
  then show ?case using sorted_insertBy [OF total trans Cons] by simp
qed

lemma compareTabs_le_iff:
  "compareTabs h scores a b \<le> 0 \<longleftrightarrow>
     (case (truthy (getTabPath a), truthy (getTabPath b)) of
        (None, None) \<Rightarrow> True
      | (None, Some pb) \<Rightarrow> False
      | (Some pa, None) \<Rightarrow> True
      | (Some pa, Some pb) \<Rightarrow>
          getOr0 scores pa < getOr0 scores pb \<or>
          (getOr0 scores pa = getOr0 scores pb \<and> localeCompare h pa pb \<le> 0))"
  by (auto simp: compareTabs_def Let_def split: option.splits)

lemma compareTabs_total:
  assumes "\<forall>a b. localeCompare h a b \<le> 0 \<or> localeCompare h b a \<le> 0"
  shows "compareTabs h scores a b \<le> 0 \<or> compareTabs h scores b a \<le> 0"
  unfolding compareTabs_le_iff using assms
  by (auto split: option.splits)

lemma compareTabs_trans:
  assumes "\<forall>a b c. localeCompare h a b \<le> 0 \<and> localeCompare h b c \<le> 0 \<longrightarrow> localeCompare h a c \<le> 0"
    and "compareTabs h scores a b \<le> 0" and "compareTabs h scores b c \<le> 0"
  shows "compareTabs h scores a c \<le> 0"
  using assms(2,3) unfolding compareTabs_le_iff
  by (auto split: option.splits dest: assms(1) [rule_format, OF conjI])

lemma alphabeticCompare_le: "alphabeticCompare a b \<le> 0 \<longleftrightarrow> collationKey a \<le> collationKey b"
  by (auto simp: alphabeticCompare_def)

lemma exampleHost_localeCompare: "localeCompare (exampleHost files refs configs candidates) = alphabeticCompare"
  by (simp add: exampleHost_def)

text \<open>
  C4, as the code has it. The comparator breaks a tie between equal depths with
  \<^verbatim>\<open>localeCompare\<close>, the locale-aware comparison of the host. When that comparison
  is a total preorder, then in the returned ordering, of two tabs with non-empty paths
  and equal depth scores the earlier one has the path that \<^verbatim>\<open>localeCompare\<close> does not
  put after the other.
\<close>

theorem equal_depth_ties_follow_localeCompare:
  assumes total: "\<forall>a b. localeCompare h a b \<le> 0 \<or> localeCompare h b a \<le> 0"
    and trans: "\<forall>a b c. localeCompare h a b \<le> 0 \<and> localeCompare h b c \<le> 0 \<longrightarrow>
                  localeCompare h a c \<le> 0"
  shows "\<exists>sorted st' scores.
           sortTabs h st tabs = Some (sorted, st') \<and>
           calculateImportScores h (importGraph st') tabs = Some scores \<and>
           (\<forall>i j pa pb.
              i < j \<and> j < length sorted \<and>
              truthy (getTabPath (sorted ! i)) = Some pa \<and>
              truthy (getTabPath (sorted ! j)) = Some pb \<and>
              getOr0 scores pa = getOr0 scores pb \<longrightarrow>
              localeCompare h pa pb \<le> 0)"
proof -
  obtain scores where
    sc: "calculateImportScores h (importGraph (buildImportGraph h tabs st)) tabs = Some scores"
    and s1: "sortTabs h st tabs = Some (sortBy (compareTabs h scores) tabs, buildImportGraph h tabs st)"
    using sortTabs_total [of h tabs st] by blast
  let ?sorted = "sortBy (compareTabs h scores) tabs"
  have srt: "sorted_wrt (\<lambda>a b. compareTabs h scores a b \<le> 0) ?sorted"
    by (rule sorted_sortBy) (use compareTabs_total [OF total] compareTabs_trans [OF trans] in blast)+
  have "localeCompare h pa pb \<le> 0"
    if "i < j" "j < length ?sorted" "truthy (getTabPath (?sorted ! i)) = Some pa"
      "truthy (getTabPath (?sorted ! j)) = Some pb" "getOr0 scores pa = getOr0 scores pb"
    for i j pa pb
  proof -
    have "compareTabs h scores (?sorted ! i) (?sorted ! j) \<le> 0"
      using srt that(1,2) by (simp add: sorted_wrt_iff_nth_less)
    then show ?thesis using that(3,4,5) by (simp add: compareTabs_le_iff)
  qed
  then show ?thesis
    by (intro exI [of _ ?sorted] exI [of _ "buildImportGraph h tabs st"] exI [of _ scores])
       (use sc s1 in auto)
qed

theorem equal_depth_ties_follow_localeCompare_witness:
  "sortTabs (exampleHost [] [] [] []) freshStrategy caseTabs
     = Some ([fileTab ''/p/a.ts'', fileTab ''/p/B.ts''], caseState) \<and>
   localeCompare (exampleHost [] [] [] []) ''/p/a.ts'' ''/p/B.ts'' \<le> 0"
proof -
  let ?h = "exampleHost [] [] [] []"
  have total: "\<forall>a b. localeCompare ?h a b \<le> 0 \<or> localeCompare ?h b a \<le> 0"
    by (auto simp: exampleHost_localeCompare alphabeticCompare_le)
  have trans: "\<forall>a b c. localeCompare ?h a b \<le> 0 \<and> localeCompare ?h b c \<le> 0 \<longrightarrow>
                  localeCompare ?h a c \<le> 0"
    by (auto simp: exampleHost_localeCompare alphabeticCompare_le)
  have s: "sortTabs ?h freshStrategy caseTabs
      = Some ([fileTab ''/p/a.ts'', fileTab ''/p/B.ts''], caseState)"
    by code_simp
  have sc: "calculateImportScores ?h (importGraph caseState) caseTabs
      = Some [(''/p/B.ts'', 0), (''/p/a.ts'', 0)]"
    by code_simp
  have pa: "truthy (getTabPath (fileTab ''/p/a.ts'')) = Some ''/p/a.ts''"
    and pb: "truthy (getTabPath (fileTab ''/p/B.ts'')) = Some ''/p/B.ts''"
    by (simp_all add: truthy_def getTabPath_def fileTab_def)
  obtain sorted st' scores where
    r: "sortTabs ?h freshStrategy caseTabs = Some (sorted, st')"
       "calculateImportScores ?h (importGraph st') caseTabs = Some scores"
       "\<forall>i j pa pb.
              i < j \<and> j < length sorted \<and>
              truthy (getTabPath (sorted ! i)) = Some pa \<and>
              truthy (getTabPath (sorted ! j)) = Some pb \<and>
              getOr0 scores pa = getOr0 scores pb \<longrightarrow>
              localeCompare ?h pa pb \<le> 0"
    using equal_depth_ties_follow_localeCompare [OF total trans, of freshStrategy caseTabs] by blast
  have e: "sorted = [fileTab ''/p/a.ts'', fileTab ''/p/B.ts'']" "st' = caseState"
    using r(1) s by simp_all
  have scores: "scores = [(''/p/B.ts'', 0), (''/p/a.ts'', 0)]" using r(2) sc e by simp
  have "localeCompare ?h ''/p/a.ts'' ''/p/B.ts'' \<le> 0"
    using r(3) [rule_format, of 0 1 "''/p/a.ts''" "''/p/B.ts''"] pa pb
    by (simp add: e scores getOr0_def)
  then show ?thesis using s by simp
qed

text \<open>
  The tie is not broken by code points: \<^verbatim>\<open>/p/B.ts\<close> is before \<^verbatim>\<open>/p/a.ts\<close> in code
  point order, both have depth 0, and on a host whose collation puts \<^verbatim>\<open>a\<close> before
  \<^verbatim>\<open>B\<close> the tab of \<^verbatim>\<open>/p/a.ts\<close> is returned first.
\<close>

theorem equal_depth_ties_not_by_code_point:
  "sortTabs (exampleHost [] [] [] []) freshStrategy [fileTab ''/p/B.ts'', fileTab ''/p/a.ts'']
     = Some ([fileTab ''/p/a.ts'', fileTab ''/p/B.ts''], caseState) \<and>
   calculateImportScores (exampleHost [] [] [] []) (importGraph caseState)
       [fileTab ''/p/B.ts'', fileTab ''/p/a.ts'']
     = Some [(''/p/B.ts'', 0), (''/p/a.ts'', 0)] \<and>
   codePointLess ''/p/B.ts'' ''/p/a.ts''"
  by code_simp

subsection \<open>Loading the alias table\<close>

lemma loadConfigFile_eq:
  "loadConfigFile h root configFile tbl =
     (case candidatePaths h root configFile of
        None \<Rightarrow> (tbl, Continue)
      | Some (entries, bu) \<Rightarrow>
          (case newBaseUrl h root bu of
             None \<Rightarrow> (tbl, Continue)
           | Some b \<Rightarrow>
               (case setAliases entries (fst tbl) of
                  (aliases, threw) \<Rightarrow> ((aliases, Some b), if threw then Continue else Break))))"
  by (simp add: loadConfigFile_def candidatePaths_def readConfig_def compilerOptionsOf_def Let_def
      split: option.splits)

lemma scan_skip:
  "candidatePaths h root f = None \<Longrightarrow>
   scanConfigFiles h root (f # rest) tbl = scanConfigFiles h root rest tbl"
  by (simp add: loadConfigFile_eq)

lemma scan_stop:
  "candidatePaths h root f = Some (entries, bu) \<Longrightarrow> newBaseUrl h root bu = Some b \<Longrightarrow>
   setAliases entries (fst tbl) = (aliases, False) \<Longrightarrow>
   scanConfigFiles h root (f # rest) tbl = (aliases, Some b)"
  by (simp add: loadConfigFile_eq)

lemma scan_all_skipped:
  "\<forall>f\<in>set fs. candidatePaths h root f = None \<Longrightarrow> scanConfigFiles h root fs tbl = tbl"
  by (induction fs) (simp_all add: loadConfigFile_eq)

text \<open>
  The scan on candidates that do not throw after the check of \<^verbatim>\<open>compilerOptions.paths\<close>.
  A candidate that is missing, cannot be read, does not parse, is \<^verbatim>\<open>null\<close>, or has no
  entry under \<^verbatim>\<open>compilerOptions.paths\<close> is skipped and the scan goes on with the next
  candidate. The scan stops at the first candidate that has an entry under
  \<^verbatim>\<open>compilerOptions.paths\<close>, when its base directory and its first targets are
  strings: the table is what the entries of that candidate give and the later
  candidates are not looked at. When every candidate is skipped the table is empty. A
  table that has been loaded, empty or not, is returned as it is by every later load on
  any host, until the reset makes it unloaded again.
\<close>

lemma alias_loading_scan:
  "(candidatePaths h root f = None \<longrightarrow>
      scanConfigFiles h root (f # rest) tbl = scanConfigFiles h root rest tbl) \<and>
   (candidatePaths h root f = Some (entries, bu) \<and> newBaseUrl h root bu = Some b \<and>
    setAliases entries (fst tbl) = (aliases, False) \<longrightarrow>
      scanConfigFiles h root (f # rest) tbl = (aliases, Some b)) \<and>
   (pathAliases st = None \<and> truthy (workspaceRoot h) = Some root \<and>
    (\<forall>c\<in>set (aliasConfigFiles h). candidatePaths h root c = None) \<longrightarrow>
      loadPathAliases h st = st\<lparr>pathAliases := Some []\<rparr>) \<and>
   (pathAliases st \<noteq> None \<longrightarrow> loadPathAliases h' st = st) \<and>
   pathAliases (loadPathAliases h st) \<noteq> None \<and>
   pathAliases (clearCache st) = None"
proof (intro conjI impI)
  assume "candidatePaths h root f = None"
  then show "scanConfigFiles h root (f # rest) tbl = scanConfigFiles h root rest tbl"
    by (rule scan_skip)
next
  assume "candidatePaths h root f = Some (entries, bu) \<and> newBaseUrl h root bu = Some b \<and>
    setAliases entries (fst tbl) = (aliases, False)"
  then show "scanConfigFiles h root (f # rest) tbl = (aliases, Some b)"
    using scan_stop by blast
next
  assume a: "pathAliases st = None \<and> truthy (workspaceRoot h) = Some root \<and>
    (\<forall>c\<in>set (aliasConfigFiles h). candidatePaths h root c = None)"
  then have "scanConfigFiles h root (aliasConfigFiles h) ([], baseUrl st) = ([], baseUrl st)"
    using scan_all_skipped by blast
  then show "loadPathAliases h st = st\<lparr>pathAliases := Some []\<rparr>"
    using a by (simp add: loadPathAliases_def)
next
  assume "pathAliases st \<noteq> None"
  then show "loadPathAliases h' st = st" by (auto simp: loadPathAliases_def)
next
  show "pathAliases (loadPathAliases h st) \<noteq> None"
    by (auto simp: loadPathAliases_def split: option.splits prod.splits)
next
  show "pathAliases (clearCache st) = None" by (simp add: clearCache_def)
qed

lemma alias_loading_scan_example:
  "candidatePaths (aliasHost []) ''/p'' ''missing.json'' = None \<and>
   candidatePaths (aliasHost []) ''/p'' ''broken.json'' = None \<and>
   scanConfigFiles (aliasHost []) ''/p'' [''missing.json'', ''broken.json'', ''jsconfig.json'', ''tsconfig.json'']
       ([], None)
     = ([(''@b'', ''src/b'')], Some ''/p'') \<and>
   loadPathAliases (aliasHost [''missing.json'', ''broken.json'']) freshStrategy
     = freshStrategy\<lparr>pathAliases := Some []\<rparr> \<and>
   loadPathAliases (aliasHost [''jsconfig.json''])
       (loadPathAliases (aliasHost [''missing.json'', ''broken.json'']) freshStrategy)
     = freshStrategy\<lparr>pathAliases := Some []\<rparr>"
proof -
  let ?h = "aliasHost []"
  let ?rest = "[''tsconfig.json'']"
  have c1: "candidatePaths ?h ''/p'' ''missing.json'' = None" by code_simp
  have c2: "candidatePaths ?h ''/p'' ''broken.json'' = None" by code_simp
  have c3: "candidatePaths ?h ''/p'' ''jsconfig.json''
      = Some ([(''@b/*'', JArr [JStr ''src/b/*''])], None)" by code_simp
  have b: "newBaseUrl ?h ''/p'' None = Some ''/p''" by (simp add: newBaseUrl_def)
  have sa: "setAliases [(''@b/*'', JArr [JStr ''src/b/*''])] (fst ([], None :: string option))
      = ([(''@b'', ''src/b'')], False)" by code_simp
  note inst = alias_loading_scan [where h = ?h and root = "''/p''"]
  have s1: "scanConfigFiles ?h ''/p'' [''missing.json'', ''broken.json'', ''jsconfig.json'', ''tsconfig.json''] ([], None)
      = scanConfigFiles ?h ''/p'' [''broken.json'', ''jsconfig.json'', ''tsconfig.json''] ([], None)"
    using inst [where f = "''missing.json''", THEN conjunct1] c1 by blast
  have s2: "scanConfigFiles ?h ''/p'' [''broken.json'', ''jsconfig.json'', ''tsconfig.json''] ([], None)
      = scanConfigFiles ?h ''/p'' [''jsconfig.json'', ''tsconfig.json''] ([], None)"
    using inst [where f = "''broken.json''", THEN conjunct1] c2 by blast
  have s3: "scanConfigFiles ?h ''/p'' [''jsconfig.json'', ''tsconfig.json''] ([], None)
      = ([(''@b'', ''src/b'')], Some ''/p'')"
    using inst [where f = "''jsconfig.json''" and tbl = "([], None)" and rest = ?rest,
                THEN conjunct2, THEN conjunct1] c3 b sa by blast
  let ?h2 = "aliasHost [''missing.json'', ''broken.json'']"
  have same: "candidatePaths ?h2 ''/p'' c = candidatePaths ?h ''/p'' c" for c
    by (simp add: candidatePaths_def readConfig_def aliasHost_def exampleHost_def)
  have all: "\<forall>c\<in>set (aliasConfigFiles ?h2). candidatePaths ?h2 ''/p'' c = None"
    using c1 c2 by (simp add: same) (simp add: aliasHost_def exampleHost_def)
  have root: "truthy (workspaceRoot ?h2) = Some ''/p''"
    by (simp add: aliasHost_def exampleHost_def truthy_def)
  have fresh: "pathAliases freshStrategy = None" by (simp add: freshStrategy_def)
  have l1: "loadPathAliases ?h2 freshStrategy = freshStrategy\<lparr>pathAliases := Some []\<rparr>"
    using alias_loading_scan
            [where h = ?h2 and root = "''/p''" and st = freshStrategy,
             THEN conjunct2, THEN conjunct2, THEN conjunct1] fresh root all by blast
  have l2: "loadPathAliases (aliasHost [''jsconfig.json'']) (freshStrategy\<lparr>pathAliases := Some []\<rparr>)
      = freshStrategy\<lparr>pathAliases := Some []\<rparr>"
    using alias_loading_scan
            [where st = "freshStrategy\<lparr>pathAliases := Some []\<rparr>" and h' = "aliasHost [''jsconfig.json'']",
             THEN conjunct2, THEN conjunct2, THEN conjunct2, THEN conjunct1]
    by simp
  show ?thesis using c1 c2 s1 s2 s3 l1 l2 by simp
qed

text \<open>
  The candidate \<^verbatim>\<open>tsconfig.json\<close> of the example workspace has two entries under
  \<^verbatim>\<open>compilerOptions.paths\<close>. The loop over them sets the alias \<^verbatim>\<open>@a\<close> and then throws
  on the number, so the body of the scan ends without \<^verbatim>\<open>break\<close>, with the alias and
  the base directory written.
\<close>

lemma alias_loading_throw_steps:
  "candidatePaths (aliasHost []) ''/p'' ''tsconfig.json''
     = Some ([(''@a/*'', JArr [JStr ''src/a/*'']), (''@c/*'', JArr [JNum 1])], None) \<and>
   setAliases [(''@a/*'', JArr [JStr ''src/a/*'']), (''@c/*'', JArr [JNum 1])] []
     = ([(''@a'', ''src/a'')], True) \<and>
   loadConfigFile (aliasHost []) ''/p'' ''tsconfig.json'' ([], None)
     = (([(''@a'', ''src/a'')], Some ''/p''), Continue)"
  by code_simp

text \<open>
  C7 at a candidate whose second alias has a first target that is not a string. The
  first candidate, \<^verbatim>\<open>tsconfig.json\<close>, has two entries under \<^verbatim>\<open>compilerOptions.paths\<close>.
  The loader sets the alias \<^verbatim>\<open>@a\<close> from it, then calling \<^verbatim>\<open>replace\<close> on the number
  throws; the handler meant for parse errors catches the exception, so the
  \<^verbatim>\<open>break\<close> is not reached and the scan goes on with \<^verbatim>\<open>jsconfig.json\<close>, whose alias
  \<^verbatim>\<open>@b\<close> is added to the table. The table mixes the two files: it is neither the table
  of \<^verbatim>\<open>tsconfig.json\<close> scanned alone nor that of \<^verbatim>\<open>jsconfig.json\<close> scanned alone.
\<close>

theorem alias_loading_merges_after_throw:
  "loadPathAliases (aliasHost [''tsconfig.json'', ''jsconfig.json'']) freshStrategy
     = \<lparr>importGraph = [], importCache = [],
        pathAliases = Some [(''@a'', ''src/a''), (''@b'', ''src/b'')], baseUrl = Some ''/p''\<rparr> \<and>
   loadPathAliases (aliasHost [''tsconfig.json'']) freshStrategy
     = \<lparr>importGraph = [], importCache = [],
        pathAliases = Some [(''@a'', ''src/a'')], baseUrl = Some ''/p''\<rparr> \<and>
   loadPathAliases (aliasHost [''jsconfig.json'']) freshStrategy
     = \<lparr>importGraph = [], importCache = [],
        pathAliases = Some [(''@b'', ''src/b'')], baseUrl = Some ''/p''\<rparr>"
  by code_simp
end
